theory Spec2Isabelle
  imports Main "HOL-Library.Sublist"
begin

section \<open>Strings\<close>

text \<open>
  The plugin is TypeScript: a string is a sequence of UTF-16 code units, and the two
  section names it looks for are Korean, so a character is modelled by the number of its
  code unit. \<open>ustr\<close> embeds an ASCII literal.
\<close>

type_synonym uchar = nat
type_synonym ustring = "uchar list"

definition ustr :: "string \<Rightarrow> ustring" where
  "ustr s = map of_char s"

text \<open>
  The characters that \<open>String.prototype.trim\<close> removes and that \<open>\s\<close> matches in a
  regular expression (the same set: WhiteSpace and LineTerminator of ECMAScript): TAB, LF,
  VT, FF, CR, SP, NBSP, U+1680, U+2000..U+200A, U+2028, U+2029, U+202F, U+205F, U+3000,
  U+FEFF.
\<close>

definition is_ws :: "uchar \<Rightarrow> bool" where
  "is_ws c \<longleftrightarrow>
     c = 9 \<or> c = 10 \<or> c = 11 \<or> c = 12 \<or> c = 13 \<or> c = 32 \<or> c = 160 \<or> c = 5760 \<or>
     (8192 \<le> c \<and> c \<le> 8202) \<or> c = 8232 \<or> c = 8233 \<or> c = 8239 \<or> c = 8287 \<or>
     c = 12288 \<or> c = 65279"

text \<open>\<open>s.trim()\<close>\<close>

definition trim :: "ustring \<Rightarrow> ustring" where
  "trim s = rev (dropWhile is_ws (rev (dropWhile is_ws s)))"

text \<open>\<open>s.startsWith(p)\<close>\<close>

definition startsWith :: "ustring \<Rightarrow> ustring \<Rightarrow> bool" where
  "startsWith s p \<longleftrightarrow> take (length p) s = p"

text \<open>\<open>s.includes(p)\<close>: \<open>p\<close> occurs in \<open>s\<close> at some position.\<close>

fun includes_str :: "ustring \<Rightarrow> ustring \<Rightarrow> bool" where
  "includes_str [] p = (p = [])"
| "includes_str (c # cs) p = (startsWith (c # cs) p \<or> includes_str cs p)"

text \<open>
  \<open>content.split("\n")\<close>: never the empty list, the empty string gives one empty line
  (so the first branch of the \<open>case\<close> is never taken).
\<close>

fun split_nl :: "ustring \<Rightarrow> ustring list" where
  "split_nl [] = [[]]"
| "split_nl (c # cs) =
     (if c = 10 then [] # split_nl cs
      else (case split_nl cs of [] \<Rightarrow> [[c]] | l # ls \<Rightarrow> (c # l) # ls))"

text \<open>\<open>lines.join("\n")\<close>\<close>

fun join_nl :: "ustring list \<Rightarrow> ustring" where
  "join_nl [] = []"
| "join_nl [l] = l"
| "join_nl (l # ls) = l @ 10 # join_nl ls"

section \<open>Recognising task lines\<close>

text \<open>
  \<open>/^\s*[-*]\s+\[[xX]\]/\<close> applied at the start of a line. The character classes that
  follow one another are disjoint, so the greedy match is the only one:
  leading white space, a marker \<open>-\<close> (45) or \<open>*\<close> (42), at least one white space,
  then \<open>[\<close> (91), \<open>x\<close> (120) or \<open>X\<close> (88), \<open>]\<close> (93).
  The result is what follows the match, \<open>None\<close> when the line does not match.
\<close>

definition after_checkbox :: "ustring \<Rightarrow> ustring option" where
  "after_checkbox line =
     (case dropWhile is_ws line of
        [] \<Rightarrow> None
      | m # r \<Rightarrow>
          if (m = 45 \<or> m = 42) \<and> r \<noteq> [] \<and> is_ws (hd r) then
            (case dropWhile is_ws r of
               a # b # c # rest \<Rightarrow>
                 if a = 91 \<and> (b = 120 \<or> b = 88) \<and> c = 93 then Some rest else None
             | _ \<Rightarrow> None)
          else None)"

text \<open>\<open>/^\s*[-*]\s+\[[xX]\]/.test(line)\<close>\<close>

definition is_checked :: "ustring \<Rightarrow> bool" where
  "is_checked line \<longleftrightarrow> after_checkbox line \<noteq> None"

text \<open>\<open>line.replace(/^\s*[-*]\s+\[[xX]\]\s*/, "")\<close>: a line that does not match is returned as it is.\<close>

definition strip_checkbox :: "ustring \<Rightarrow> ustring" where
  "strip_checkbox line =
     (case after_checkbox line of None \<Rightarrow> line | Some rest \<Rightarrow> dropWhile is_ws rest)"

text \<open>
  \<open>/\([^)]+\)\s*$/\<close> tried at the start of \<open>s\<close>: \<open>(\<close> (40), one or more characters
  other than \<open>)\<close> (41), \<open>)\<close>, then white space only up to the end of the string.
  \<open>[^)]+\<close> cannot step over a \<open>)\<close>, so the closing parenthesis is the first one.
\<close>

definition annot_here :: "ustring \<Rightarrow> bool" where
  "annot_here s =
     (case s of
        [] \<Rightarrow> False
      | c # r \<Rightarrow>
          c = 40 \<and> takeWhile (\<lambda>x. x \<noteq> 41) r \<noteq> [] \<and>
          (case dropWhile (\<lambda>x. x \<noteq> 41) r of
             [] \<Rightarrow> False
           | _ # e \<Rightarrow> list_all is_ws e))"

text \<open>
  \<open>s.replace(/\([^)]+\)\s*$/, "")\<close>: the leftmost position where the pattern matches;
  the match reaches the end of the string, so everything from there is removed.
\<close>

fun strip_annot :: "ustring \<Rightarrow> ustring" where
  "strip_annot [] = []"
| "strip_annot (c # cs) = (if annot_here (c # cs) then [] else c # strip_annot cs)"

text \<open>The task text of a checked line, as both \<open>processTaskFile\<close> and \<open>checkRepeatTaskDates\<close> compute it.\<close>

definition taskText :: "ustring \<Rightarrow> ustring" where
  "taskText line = trim (strip_annot (strip_checkbox line))"

text \<open>The template literal \<open>`- [ ] ${taskText} (${date})`\<close>.\<close>

definition newLine :: "ustring \<Rightarrow> ustring \<Rightarrow> ustring" where
  "newLine text date = ustr ''- [ ] '' @ text @ ustr '' ('' @ date @ ustr '')''"

section \<open>Section headers\<close>

text \<open>\<open>"### "\<close>, and the two section names: U+BC18 U+BCF5 U+0020 U+C791 U+C5C5 (recurring
  tasks) and U+C77C U+BC18 U+0020 U+C791 U+C5C5 (general tasks).\<close>

definition hdr_marker :: ustring where
  "hdr_marker = ustr ''### ''"

definition hdr_repeat :: ustring where
  "hdr_repeat = hdr_marker @ [48152, 48373, 32, 51089, 50629]"

definition hdr_normal :: ustring where
  "hdr_normal = hdr_marker @ [51068, 48152, 32, 51089, 50629]"

section \<open>processTaskFile: the extraction loop\<close>

record extract_state =
  remaining :: "ustring list"
  doneTasks :: "ustring list"
  inRepeatSection :: bool

text \<open>
  One iteration of the loop over the lines of the task file. \<open>tomorrow\<close> is
  \<open>moment().add(1, 'day').format(dateFormat)\<close>, the clock being read once for a pass.
\<close>

definition process_line :: "ustring \<Rightarrow> ustring \<Rightarrow> extract_state \<Rightarrow> extract_state" where
  "process_line tomorrow line st =
     (if trim line = hdr_repeat then
        st\<lparr>inRepeatSection := True, remaining := remaining st @ [line]\<rparr>
      else if trim line = hdr_normal then
        st\<lparr>inRepeatSection := False, remaining := remaining st @ [line]\<rparr>
      else if startsWith line hdr_marker then
        st\<lparr>inRepeatSection := False, remaining := remaining st @ [line]\<rparr>
      else if is_checked line then
        (if inRepeatSection st then
           st\<lparr>remaining := remaining st @ [newLine (taskText line) tomorrow],
              doneTasks := doneTasks st @ [trim line]\<rparr>
         else st\<lparr>doneTasks := doneTasks st @ [trim line]\<rparr>)
      else st\<lparr>remaining := remaining st @ [line]\<rparr>)"

definition extract_init :: extract_state where
  "extract_init = \<lparr>remaining = [], doneTasks = [], inRepeatSection = False\<rparr>"

definition extract_loop :: "ustring \<Rightarrow> ustring list \<Rightarrow> extract_state" where
  "extract_loop tomorrow lines = fold (process_line tomorrow) lines extract_init"

section \<open>checkRepeatTaskDates: the loop over the task file\<close>

record check_state =
  updatedLines :: "ustring list"
  inRepeat :: bool
  hasChanges :: bool

text \<open>
  One iteration. \<open>inRepeat\<close> is the loop's own \<open>inRepeatSection\<close>; \<open>today\<close> is
  \<open>moment().format(dateFormat)\<close>. The test on the date is \<open>line.includes(`(${today})`)\<close>.
\<close>

definition check_line :: "ustring \<Rightarrow> ustring \<Rightarrow> check_state \<Rightarrow> check_state" where
  "check_line today line st =
     (if trim line = hdr_repeat then
        st\<lparr>inRepeat := True, updatedLines := updatedLines st @ [line]\<rparr>
      else if trim line = hdr_normal then
        st\<lparr>inRepeat := False, updatedLines := updatedLines st @ [line]\<rparr>
      else if startsWith line hdr_marker then
        st\<lparr>inRepeat := False, updatedLines := updatedLines st @ [line]\<rparr>
      else if inRepeat st \<and> is_checked line \<and>
              includes_str line (ustr ''('' @ today @ ustr '')'') then
        st\<lparr>updatedLines := updatedLines st @ [newLine (taskText line) today],
           hasChanges := True\<rparr>
      else st\<lparr>updatedLines := updatedLines st @ [line]\<rparr>)"

definition check_init :: check_state where
  "check_init = \<lparr>updatedLines = [], inRepeat = False, hasChanges = False\<rparr>"

definition check_loop :: "ustring \<Rightarrow> ustring list \<Rightarrow> check_state" where
  "check_loop today lines = fold (check_line today) lines check_init"

section \<open>appendDoneTasks: merging into the archive\<close>

record merge_state =
  newContent :: "ustring list"
  inTargetSection :: bool
  sectionFound :: bool

text \<open>One iteration of the loop over \<open>linesInDone\<close>.\<close>

definition merge_line :: "ustring list \<Rightarrow> ustring \<Rightarrow> ustring \<Rightarrow> merge_state \<Rightarrow> merge_state" where
  "merge_line tasks dateHeader line st =
     (if trim line = dateHeader then
        st\<lparr>sectionFound := True, inTargetSection := True,
           newContent := newContent st @ [line]\<rparr>
      else if inTargetSection st \<and> startsWith line hdr_marker then
        st\<lparr>newContent := newContent st @ tasks @ [line], inTargetSection := False\<rparr>
      else st\<lparr>newContent := newContent st @ [line]\<rparr>)"

definition merge_init :: merge_state where
  "merge_init = \<lparr>newContent = [], inTargetSection = False, sectionFound = False\<rparr>"

text \<open>What follows the loop: the tasks close an open target section, or a new section is appended.\<close>

definition merge_finish :: "ustring list \<Rightarrow> ustring \<Rightarrow> merge_state \<Rightarrow> ustring list" where
  "merge_finish tasks dateHeader st =
     (if sectionFound st \<and> inTargetSection st then newContent st @ tasks
      else if \<not> sectionFound st then
        (if length (newContent st) > 0 then newContent st @ [[]] else newContent st)
          @ dateHeader # tasks
      else newContent st)"

definition merge_lines :: "ustring list \<Rightarrow> ustring list \<Rightarrow> ustring \<Rightarrow> ustring list" where
  "merge_lines linesInDone tasks dateHeader =
     merge_finish tasks dateHeader
       (fold (merge_line tasks dateHeader) linesInDone merge_init)"

section \<open>The vault, the settings and the clock\<close>

text \<open>
  The vault maps the path of a file to its content. The plugin changes it through
  \<open>vault.modify\<close> and \<open>vault.create\<close> only, and each call is an event of its own: the
  host answers a \<open>modify\<close> with a change notification, whatever the content written. The
  state of the vault is therefore its files together with the calls made so far.
  \<open>moment\<close> is outside the plugin: the clock gives, for a format pattern, today's and
  tomorrow's date as formatted by it.
\<close>

type_synonym path = ustring
type_synonym vault = "path \<rightharpoonup> ustring"

datatype vault_event = Modify path ustring | Create path ustring

record vault_state =
  files :: vault
  writes :: "vault_event list"

text \<open>\<open>this.app.vault.modify(file, data)\<close>\<close>

definition vault_modify :: "path \<Rightarrow> ustring \<Rightarrow> vault_state \<Rightarrow> vault_state" where
  "vault_modify f data w =
     w\<lparr>files := (files w)(f \<mapsto> data), writes := writes w @ [Modify f data]\<rparr>"

text \<open>\<open>this.app.vault.create(path, data)\<close>\<close>

definition vault_create :: "path \<Rightarrow> ustring \<Rightarrow> vault_state \<Rightarrow> vault_state" where
  "vault_create f data w =
     w\<lparr>files := (files w)(f \<mapsto> data), writes := writes w @ [Create f data]\<rparr>"

record settings =
  taskFile :: path
  doneFile :: path
  dateFormat :: ustring
  autoOpenTaskFile :: bool

record clock =
  format_today :: "ustring \<Rightarrow> ustring"
  format_tomorrow :: "ustring \<Rightarrow> ustring"

datatype error = ReadFailed

text \<open>\<open>this.settings.dateFormat || "YYYY-MM-DD"\<close>\<close>

definition effective_dateFormat :: "settings \<Rightarrow> ustring" where
  "effective_dateFormat s = (if dateFormat s = [] then ustr ''YYYY-MM-DD'' else dateFormat s)"

text \<open>
  \<open>appendDoneTasks(tasks, dateFormat)\<close>: the archive is created empty when it is missing,
  read, merged, and written back joined and trimmed.
\<close>

definition appendDoneTasks ::
  "settings \<Rightarrow> clock \<Rightarrow> ustring list \<Rightarrow> ustring \<Rightarrow> vault_state \<Rightarrow> vault_state" where
  "appendDoneTasks s cl tasks fmt w =
     (let dateHeader = hdr_marker @ format_today cl fmt;
          w1 = (case files w (doneFile s) of
                  None \<Rightarrow> vault_create (doneFile s) [] w
                | Some _ \<Rightarrow> w);
          doneContent = (case files w1 (doneFile s) of None \<Rightarrow> [] | Some c \<Rightarrow> c);
          linesInDone = split_nl doneContent
      in vault_modify (doneFile s)
           (trim (join_nl (merge_lines linesInDone tasks dateHeader))) w1)"

text \<open>
  \<open>processTaskFile(file)\<close>: the pass returns before any write when no task is done;
  otherwise the task file is rewritten and the done tasks go to the archive.
\<close>

definition processTaskFile ::
  "settings \<Rightarrow> clock \<Rightarrow> path \<Rightarrow> vault_state \<Rightarrow> error + vault_state" where
  "processTaskFile s cl file w =
     (case files w file of
        None \<Rightarrow> Inl ReadFailed
      | Some content \<Rightarrow>
          (let fmt = effective_dateFormat s;
               st = extract_loop (format_tomorrow cl fmt) (split_nl content)
           in if length (doneTasks st) = 0 then Inr w
              else Inr (appendDoneTasks s cl (doneTasks st) fmt
                          (vault_modify file (join_nl (remaining st)) w))))"

text \<open>\<open>checkRepeatTaskDates()\<close>: the task file is written only when a line changed.\<close>

definition checkRepeatTaskDates :: "settings \<Rightarrow> clock \<Rightarrow> vault_state \<Rightarrow> vault_state" where
  "checkRepeatTaskDates s cl w =
     (case files w (taskFile s) of
        None \<Rightarrow> w
      | Some content \<Rightarrow>
          (let fmt = effective_dateFormat s;
               st = check_loop (format_today cl fmt) (split_nl content)
           in if hasChanges st then vault_modify (taskFile s) (join_nl (updatedLines st)) w
              else w))"

section \<open>Sections of the task file\<close>

text \<open>
  Both loops over the task file start each iteration with the same three tests on the
  line, which set the section flag; \<open>section_step\<close> is that update alone, and line \<open>i\<close>
  lies in the recurring section when the flag is set once the tests have seen lines
  \<open>0..i\<close>.
\<close>

definition section_step :: "ustring \<Rightarrow> bool \<Rightarrow> bool" where
  "section_step line inR =
     (if trim line = hdr_repeat then True
      else if trim line = hdr_normal then False
      else if startsWith line hdr_marker then False
      else inR)"

definition in_repeat_at :: "ustring list \<Rightarrow> nat \<Rightarrow> bool" where
  "in_repeat_at lines i = fold section_step (take (Suc i) lines) False"

section \<open>Sections of the archive\<close>

text \<open>
  The merge loop opens the section of the date header \<open>D\<close> at a line trim-equal to \<open>D\<close>
  and closes it at any other line that starts with \<open>"### "\<close>. \<open>target_open D doc\<close>: that
  section is open at the end of \<open>doc\<close>. \<open>under_header D l inSec doc\<close>: the line \<open>l\<close>
  occurs in \<open>doc\<close> inside the section of \<open>D\<close> (\<open>inSec\<close>: the section is open where \<open>doc\<close>
  starts).
\<close>

definition date_section_step :: "ustring \<Rightarrow> ustring \<Rightarrow> bool \<Rightarrow> bool" where
  "date_section_step D x inSec =
     (if trim x = D then True else if startsWith x hdr_marker then False else inSec)"

definition target_open :: "ustring \<Rightarrow> ustring list \<Rightarrow> bool" where
  "target_open D doc = fold (date_section_step D) doc False"

fun under_header :: "ustring \<Rightarrow> ustring \<Rightarrow> bool \<Rightarrow> ustring list \<Rightarrow> bool" where
  "under_header D l inSec [] = False"
| "under_header D l inSec (x # xs) =
     (if trim x = D then under_header D l True xs
      else if startsWith x hdr_marker then under_header D l False xs
      else (inSec \<and> x = l) \<or> under_header D l inSec xs)"

section \<open>Well-formed task text\<close>

text \<open>
  A text in which every \<open>(\<close> is followed by a \<open>)\<close>: after the last \<open>)\<close> there is no
  \<open>(\<close>. Before a trailing annotation it is such a text that the annotation pattern
  leaves alone.
\<close>

definition parens_closed :: "ustring \<Rightarrow> bool" where
  "parens_closed s \<longleftrightarrow> 40 \<notin> set (takeWhile (\<lambda>x. x \<noteq> 41) (rev s))"

section \<open>Basic facts about lines\<close>

lemmas str_defs = ustr_def trim_def startsWith_def is_ws_def after_checkbox_def is_checked_def
  strip_checkbox_def annot_here_def taskText_def newLine_def hdr_marker_def hdr_repeat_def
  hdr_normal_def

lemma trim_Cons:
  assumes "dropWhile is_ws s = c # r"
  shows "trim s = c # rev (dropWhile is_ws (rev r))"
proof -
  have "\<not> is_ws c" using assms by (metis hd_dropWhile list.distinct(1) list.sel(1))
  then have "dropWhile is_ws (rev r @ [c]) = dropWhile is_ws (rev r) @ [c]"
    by (induction "rev r" arbitrary: r) (auto simp: dropWhile_append)
  then show ?thesis using assms by (simp add: trim_def)
qed

lemma checked_first:
  assumes "is_checked line"
  shows "\<exists>m r. dropWhile is_ws line = m # r \<and> (m = 45 \<or> m = 42)"
  using assms unfolding is_checked_def after_checkbox_def
  by (auto split: list.splits if_splits)

lemma checked_trim_hd:
  assumes "is_checked line"
  shows "\<exists>m r. trim line = m # r \<and> (m = 45 \<or> m = 42)"
  using checked_first[OF assms] trim_Cons by blast

text \<open>A checked task line is none of the three kinds of header line.\<close>

lemma checked_not_repeat: "is_checked line \<Longrightarrow> trim line \<noteq> hdr_repeat"
  using checked_trim_hd[of line] by (auto simp: hdr_repeat_def hdr_marker_def ustr_def)

lemma checked_not_normal: "is_checked line \<Longrightarrow> trim line \<noteq> hdr_normal"
  using checked_trim_hd[of line] by (auto simp: hdr_normal_def hdr_marker_def ustr_def)

lemma startsWith_marker_hd: "startsWith line hdr_marker \<Longrightarrow> \<exists>r. line = 35 # r"
  by (cases line) (auto simp: startsWith_def hdr_marker_def ustr_def)

lemma checked_not_marker: "is_checked line \<Longrightarrow> \<not> startsWith line hdr_marker"
proof
  assume c: "is_checked line" and s: "startsWith line hdr_marker"
  from startsWith_marker_hd[OF s] obtain r where "line = 35 # r" by blast
  then have "dropWhile is_ws line = 35 # r" by (simp add: is_ws_def)
  with checked_first[OF c] show False by auto
qed

text \<open>The rewritten line is an unchecked task, and no header.\<close>

lemma newLine_not_checked: "\<not> is_checked (newLine text d)"
  by (simp add: str_defs)

lemma newLine_not_header:
  "trim (newLine text d) \<noteq> hdr_repeat" "trim (newLine text d) \<noteq> hdr_normal"
  "\<not> startsWith (newLine text d) hdr_marker"
proof -
  have d: "dropWhile is_ws (newLine text d)
             = 45 # (ustr '' [ ] '' @ text @ ustr '' ('' @ d @ ustr '')'')"
    by (simp add: newLine_def ustr_def is_ws_def)
  show "trim (newLine text d) \<noteq> hdr_repeat" using trim_Cons[OF d]
    by (simp add: hdr_repeat_def hdr_marker_def ustr_def)
  show "trim (newLine text d) \<noteq> hdr_normal" using trim_Cons[OF d]
    by (simp add: hdr_normal_def hdr_marker_def ustr_def)
  show "\<not> startsWith (newLine text d) hdr_marker"
    by (simp add: newLine_def startsWith_def hdr_marker_def ustr_def)
qed

section \<open>Extraction\<close>

lemma extract_loop_snoc:
  "extract_loop tm (ls @ [l]) = process_line tm l (extract_loop tm ls)"
  by (simp add: extract_loop_def)

lemma remaining_unchecked:
  "\<forall>l \<in> set (remaining (extract_loop tm ls)). \<not> is_checked l"
proof (induction ls rule: rev_induct)
  case Nil
  then show ?case by (simp add: extract_loop_def extract_init_def)
next
  case (snoc x xs)
  then show ?case
    using checked_not_repeat[of x] checked_not_normal[of x] checked_not_marker[of x]
    by (auto simp: extract_loop_snoc process_line_def newLine_not_checked)
qed

lemma unchecked_extract:
  assumes "\<forall>l \<in> set ls. \<not> is_checked l"
  shows "remaining (extract_loop tm ls) = ls \<and> doneTasks (extract_loop tm ls) = []"
  using assms
proof (induction ls rule: rev_induct)
  case Nil
  then show ?case by (simp add: extract_loop_def extract_init_def)
next
  case (snoc x xs)
  then show ?case by (simp add: extract_loop_snoc process_line_def)
qed

text \<open>
  C7. Extraction is idempotent on the lines it keeps: run again on \<open>remaining\<close>, with the
  same date, the loop keeps every line as it is and finds no done task.
\<close>

theorem extract_idempotent:
  "remaining (extract_loop tm (remaining (extract_loop tm ls))) = remaining (extract_loop tm ls)
   \<and> doneTasks (extract_loop tm (remaining (extract_loop tm ls))) = []"
  using unchecked_extract[OF remaining_unchecked] by blast

text \<open>What a pass that finds done tasks writes: the task file, then the archive.\<close>

lemma appendDoneTasks_writes:
  "writes (appendDoneTasks s cl tasks fmt w)
     = writes w
       @ (case files w (doneFile s) of None \<Rightarrow> [Create (doneFile s) []] | Some _ \<Rightarrow> [])
       @ [Modify (doneFile s)
            (trim (join_nl (merge_lines
               (split_nl (case files w (doneFile s) of None \<Rightarrow> [] | Some c \<Rightarrow> c))
               tasks (hdr_marker @ format_today cl fmt))))]"
  by (simp add: appendDoneTasks_def vault_modify_def vault_create_def Let_def split: option.splits)

lemma processTaskFile_writes:
  assumes "files w file = Some content"
    and "doneTasks (extract_loop (format_tomorrow cl (effective_dateFormat s)) (split_nl content))
           \<noteq> []"
    and "processTaskFile s cl file w = Inr w'"
  shows "\<exists>es. writes w'
           = writes w
             @ Modify file (join_nl (remaining (extract_loop
                 (format_tomorrow cl (effective_dateFormat s)) (split_nl content)))) # es
         \<and> es \<noteq> []"
  using assms
  by (auto simp: processTaskFile_def Let_def appendDoneTasks_writes vault_modify_def
        split: option.splits)

text \<open>
  C8. A task file in which no line is a checked task gives no done task, and the pass
  makes no call of \<open>vault.modify\<close> or \<open>vault.create\<close>: it returns the state of the vault
  it was given, with the same files and the same list of calls. Neither the task file
  nor the archive is written, not even with the content it has, and no archive is
  created.
\<close>

theorem no_checked_no_write:
  assumes "files w file = Some content"
    and "\<forall>l \<in> set (split_nl content). \<not> is_checked l"
  shows "processTaskFile s cl file w = Inr w
         \<and> doneTasks (extract_loop tm (split_nl content)) = []
         \<and> (\<exists>w'. processTaskFile s cl file w = Inr w'
                \<and> writes w' = writes w \<and> files w' = files w)"
  using assms unchecked_extract[OF assms(2)]
  by (simp add: processTaskFile_def Let_def)

theorem no_checked_no_write_witness:
  "files \<lparr>files = [ustr ''task.md'' \<mapsto> ustr ''- [ ] a''], writes = []\<rparr> (ustr ''task.md'')
     = Some (ustr ''- [ ] a'')
   \<and> list_all (\<lambda>l. \<not> is_checked l) (split_nl (ustr ''- [ ] a''))
   \<and> processTaskFile
        \<lparr>taskFile = ustr ''task.md'', doneFile = ustr ''task_done.md'', dateFormat = [],
         autoOpenTaskFile = True\<rparr>
        \<lparr>format_today = (\<lambda>_. ustr ''2024-01-02''),
         format_tomorrow = (\<lambda>_. ustr ''2024-01-03'')\<rparr>
        (ustr ''task.md'') \<lparr>files = [ustr ''task.md'' \<mapsto> ustr ''- [ ] a''], writes = []\<rparr>
      = Inr \<lparr>files = [ustr ''task.md'' \<mapsto> ustr ''- [ ] a''], writes = []\<rparr>"
proof -
  let ?w = "\<lparr>files = [ustr ''task.md'' \<mapsto> ustr ''- [ ] a''], writes = []\<rparr>"
  have h1: "files ?w (ustr ''task.md'') = Some (ustr ''- [ ] a'')"
    by simp
  have h2: "\<forall>l \<in> set (split_nl (ustr ''- [ ] a'')). \<not> is_checked l"
    by (simp add: str_defs)
  from h1 h2
    no_checked_no_write[of ?w "ustr ''task.md''" "ustr ''- [ ] a''", OF h1 h2, THEN conjunct1]
  show ?thesis by (simp only: list_all_iff simp_thms)
qed

text \<open>The section flag of the loop, and what the loop does with a checked line.\<close>

lemma in_repeat_at_snoc:
  "i < length ls \<Longrightarrow> in_repeat_at (ls @ [l]) i = in_repeat_at ls i"
  by (simp add: in_repeat_at_def)

lemma in_repeat_at_last:
  "in_repeat_at (ls @ [l]) (length ls) = section_step l (fold section_step ls False)"
  by (simp add: in_repeat_at_def)

lemma extract_inRepeat:
  "inRepeatSection (extract_loop tm ls) = fold section_step ls False"
  by (induction ls rule: rev_induct)
     (simp_all add: extract_loop_snoc process_line_def section_step_def extract_loop_def
        extract_init_def)

lemma extract_grows:
  "set (remaining (extract_loop tm ls)) \<subseteq> set (remaining (extract_loop tm (ls @ [x])))
   \<and> set (doneTasks (extract_loop tm ls)) \<subseteq> set (doneTasks (extract_loop tm (ls @ [x])))"
  by (auto simp: extract_loop_snoc process_line_def)

lemma extract_checked_line:
  assumes "i < length ls" "is_checked (ls ! i)"
  shows "trim (ls ! i) \<in> set (doneTasks (extract_loop tm ls))
         \<and> (in_repeat_at ls i \<longrightarrow>
               newLine (taskText (ls ! i)) tm \<in> set (remaining (extract_loop tm ls)))"
  using assms
proof (induction ls rule: rev_induct)
  case Nil
  then show ?case by simp
next
  case (snoc x xs)
  show ?case
  proof (cases "i < length xs")
    case True
    then have "trim (xs ! i) \<in> set (doneTasks (extract_loop tm xs))
         \<and> (in_repeat_at xs i \<longrightarrow>
               newLine (taskText (xs ! i)) tm \<in> set (remaining (extract_loop tm xs)))"
      using snoc by (simp add: nth_append)
    then show ?thesis using True extract_grows[of tm xs x]
      by (auto simp: nth_append in_repeat_at_snoc)
  next
    case False
    then have i: "i = length xs" using snoc.prems by simp
    then have c: "is_checked x" using snoc.prems by simp
    show ?thesis
      using c checked_not_repeat[OF c] checked_not_normal[OF c] checked_not_marker[OF c]
      unfolding i in_repeat_at_last
      by (simp add: extract_loop_snoc process_line_def extract_inRepeat section_step_def)
  qed
qed

lemma doneTasks_plain:
  assumes "startsWith D hdr_marker"
  shows "\<forall>t \<in> set (doneTasks (extract_loop tm ls)). trim t \<noteq> D \<and> \<not> startsWith t hdr_marker"
proof (induction ls rule: rev_induct)
  case Nil
  then show ?case by (simp add: extract_loop_def extract_init_def)
next
  case (snoc x xs)
  have "trim (trim x) \<noteq> D \<and> \<not> startsWith (trim x) hdr_marker" if c: "is_checked x"
  proof -
    from checked_trim_hd[OF c] obtain m r where t: "trim x = m # r" "m = 45 \<or> m = 42" by blast
    then have "dropWhile is_ws (trim x) = m # r" by (auto simp: is_ws_def)
    from trim_Cons[OF this] have "hd (trim (trim x)) = m" by simp
    moreover from startsWith_marker_hd[OF assms] have "hd D = 35" by auto
    ultimately have "trim (trim x) \<noteq> D" using t(2) by auto
    moreover have "\<not> startsWith (trim x) hdr_marker"
      using t startsWith_marker_hd[of "trim x"] by auto
    ultimately show ?thesis by blast
  qed
  then show ?case using snoc.IH
    by (auto simp: extract_loop_snoc process_line_def)
qed

section \<open>The task text of a checked line\<close>

lemma takeWhile_no_close:
  "41 \<notin> set xs \<Longrightarrow> takeWhile (\<lambda>x. x \<noteq> (41::nat)) (xs @ ys) = xs @ takeWhile (\<lambda>x. x \<noteq> 41) ys"
  by (induction xs) auto

lemma dropWhile_no_close:
  "41 \<notin> set xs \<Longrightarrow> dropWhile (\<lambda>x. x \<noteq> (41::nat)) (xs @ ys) = dropWhile (\<lambda>x. x \<noteq> 41) ys"
  by (induction xs) auto

lemma parens_closed_tl: "parens_closed (c # t) \<Longrightarrow> parens_closed t"
proof (cases "41 \<in> set t")
  case True
  assume "parens_closed (c # t)"
  moreover have "\<exists>x \<in> set (rev t). \<not> x \<noteq> 41" using True by simp
  ultimately show ?thesis by (simp add: parens_closed_def takeWhile_append1)
next
  case False
  assume a: "parens_closed (c # t)"
  have "41 \<notin> set (rev t)" using False by simp
  then have eq: "takeWhile (\<lambda>x. x \<noteq> 41) (rev t @ [c]) = rev t @ takeWhile (\<lambda>x. x \<noteq> 41) [c]"
    by (rule takeWhile_no_close)
  from a have "40 \<notin> set (takeWhile (\<lambda>x. x \<noteq> 41) (rev t @ [c]))"
    unfolding parens_closed_def rev.simps .
  then have "40 \<notin> set (rev t @ takeWhile (\<lambda>x. x \<noteq> 41) [c])" unfolding eq .
  then have "40 \<notin> set t" by simp
  then show ?thesis unfolding parens_closed_def by (metis set_rev set_takeWhileD)
qed

lemma parens_closed_open: "parens_closed (40 # t) \<Longrightarrow> 41 \<in> set t"
proof (rule ccontr)
  assume a: "parens_closed (40 # t)" and "41 \<notin> set t"
  then have "41 \<notin> set (rev t)" by simp
  then have eq: "takeWhile (\<lambda>x. x \<noteq> 41) (rev t @ [40]) = rev t @ takeWhile (\<lambda>x. x \<noteq> 41) [40]"
    by (rule takeWhile_no_close)
  from a have "40 \<notin> set (takeWhile (\<lambda>x. x \<noteq> 41) (rev t @ [40]))"
    unfolding parens_closed_def rev.simps .
  then have "40 \<notin> set (rev t @ takeWhile (\<lambda>x. x \<noteq> 41) [40])" unfolding eq .
  then show False by simp
qed

lemma annot_here_annot:
  assumes "body \<noteq> []" "41 \<notin> set body" "list_all is_ws w"
  shows "annot_here (40 # body @ 41 # w)"
proof -
  have "takeWhile (\<lambda>x. x \<noteq> 41) (body @ 41 # w) = body"
    and "dropWhile (\<lambda>x. x \<noteq> 41) (body @ 41 # w) = 41 # w"
    using assms(2) by (simp_all add: takeWhile_no_close dropWhile_no_close)
  then show ?thesis using assms by (simp add: annot_here_def)
qed

lemma annot_here_text:
  assumes "parens_closed (c # t)"
  shows "\<not> annot_here (c # t @ 40 # rest)"
proof (cases "c = 40")
  case False
  then show ?thesis by (simp add: annot_here_def)
next
  case True
  with assms have "41 \<in> set t" using parens_closed_open by blast
  then obtain t1 t2 where t: "t = t1 @ 41 # t2" "41 \<notin> set t1"
    by (meson split_list_first)
  then have "dropWhile (\<lambda>x. x \<noteq> 41) ((t1 @ 41 # t2) @ 40 # rest) = 41 # t2 @ 40 # rest"
    by (simp add: dropWhile_no_close)
  then show ?thesis unfolding t by (simp add: annot_here_def is_ws_def)
qed

lemma strip_annot_trailing:
  assumes "parens_closed tx" "body \<noteq> []" "41 \<notin> set body" "list_all is_ws w"
  shows "strip_annot (tx @ 40 # body @ 41 # w) = tx"
  using assms(1)
proof (induction tx)
  case Nil
  then show ?case using annot_here_annot[OF assms(2) assms(3) assms(4)] by simp
next
  case (Cons c t)
  have "\<not> annot_here (c # t @ 40 # body @ 41 # w)" using Cons.prems by (rule annot_here_text)
  moreover have "parens_closed t" using Cons.prems by (rule parens_closed_tl)
  ultimately show ?case using Cons.IH by simp
qed

lemma checked_shape:
  assumes "is_checked line"
  shows "\<exists>indent m ws1 x rest.
           line = indent @ m # ws1 @ 91 # x # 93 # rest \<and> list_all is_ws indent
           \<and> (m = 45 \<or> m = 42) \<and> ws1 \<noteq> [] \<and> list_all is_ws ws1 \<and> (x = 120 \<or> x = 88)
           \<and> strip_checkbox line = dropWhile is_ws rest"
proof -
  from assms obtain rest where r: "after_checkbox line = Some rest"
    by (auto simp: is_checked_def)
  then obtain m r1 where d1: "dropWhile is_ws line = m # r1" and m: "m = 45 \<or> m = 42"
    and r1: "r1 \<noteq> []" "is_ws (hd r1)"
    unfolding after_checkbox_def by (auto split: list.splits if_splits)
  from r d1 m r1 obtain x where d2: "dropWhile is_ws r1 = 91 # x # 93 # rest"
    and x: "x = 120 \<or> x = 88"
    unfolding after_checkbox_def by (auto split: list.splits if_splits)
  let ?indent = "takeWhile is_ws line" and ?ws1 = "takeWhile is_ws r1"
  have "line = ?indent @ m # r1" using d1 by (metis takeWhile_dropWhile_id)
  moreover have "r1 = ?ws1 @ 91 # x # 93 # rest" using d2 by (metis takeWhile_dropWhile_id)
  ultimately have "line = ?indent @ m # ?ws1 @ 91 # x # 93 # rest" by simp
  moreover have "list_all is_ws ?indent" "list_all is_ws ?ws1"
    by (auto simp: list_all_iff dest: set_takeWhileD)
  moreover have "?ws1 \<noteq> []" using r1 by (cases r1) auto
  moreover have "strip_checkbox line = dropWhile is_ws rest" using r by (simp add: strip_checkbox_def)
  ultimately show ?thesis using m x by blast
qed

lemma shape_checked:
  assumes "list_all is_ws indent" "m = 45 \<or> m = 42" "ws1 \<noteq> []" "list_all is_ws ws1"
    "x = 120 \<or> x = 88"
  shows "after_checkbox (indent @ m # ws1 @ 91 # x # 93 # rest) = Some rest"
proof -
  have i: "\<forall>c \<in> set indent. is_ws c" and w: "\<forall>c \<in> set ws1. is_ws c"
    using assms by (simp_all add: list_all_iff)
  have nm: "\<not> is_ws m" using assms(2) by (auto simp: is_ws_def)
  have d1: "dropWhile is_ws (indent @ m # ws1 @ 91 # x # 93 # rest) = m # ws1 @ 91 # x # 93 # rest"
    using i nm by (simp add: dropWhile_append2)
  have d2: "dropWhile is_ws (ws1 @ 91 # x # 93 # rest) = 91 # x # 93 # rest"
    using w by (simp add: dropWhile_append2 is_ws_def)
  have h: "is_ws (hd (ws1 @ 91 # x # 93 # rest))" using assms(3) w by (cases ws1) auto
  show ?thesis unfolding after_checkbox_def d1 using assms(2,5) h by (simp add: d2)
qed

lemma taskText_shape:
  assumes "list_all is_ws indent" "m = 45 \<or> m = 42" "ws1 \<noteq> []" "list_all is_ws ws1"
    "x = 120 \<or> x = 88"
  shows "taskText (indent @ m # ws1 @ 91 # x # 93 # rest)
           = trim (strip_annot (dropWhile is_ws rest))"
  using shape_checked[OF assms, of rest] by (simp add: taskText_def strip_checkbox_def)

lemma taskText_annotated:
  assumes "list_all is_ws indent" "m = 45 \<or> m = 42" "ws1 \<noteq> []" "list_all is_ws ws1"
    "x = 120 \<or> x = 88"
    and "dropWhile is_ws rest = tx @ 40 # body @ 41 # w"
    and "parens_closed tx" "body \<noteq> []" "41 \<notin> set body" "list_all is_ws w"
  shows "taskText (indent @ m # ws1 @ 91 # x # 93 # rest) = trim tx"
  using taskText_shape[OF assms(1-5), of rest] strip_annot_trailing[OF assms(7-10)]
  by (simp add: assms(6))

text \<open>
  C10, as the code has it. A checked task line of the recurring section is kept as
  \<open>- [ ] \<close>, its task text, a space and \<open>(tomorrow)\<close>, from column 0. Every checked line
  is \<open>indent @ m # ws1 @ [x] @ rest\<close>: white space, the marker \<open>-\<close> or \<open>*\<close>, white space,
  the checkbox. The task text is computed from \<open>rest\<close> alone, so indentation, marker and
  checkbox are discarded whatever they are. The trailing annotation is discarded when it
  is \<open>(\<close>, one or more characters other than \<open>)\<close>, and \<open>)\<close>, followed by white space only,
  and the text before it has no unclosed \<open>(\<close>: then the task text is that text, trimmed.
\<close>

theorem recurring_rewrite_form:
  assumes chk: "is_checked line" and rep: "inRepeatSection st"
  shows "remaining (process_line tm line st)
           = remaining st @ [ustr ''- [ ] '' @ taskText line @ ustr '' ('' @ tm @ ustr '')'']
         \<and> (\<exists>indent m ws1 x rest.
               line = indent @ m # ws1 @ 91 # x # 93 # rest \<and> list_all is_ws indent
               \<and> (m = 45 \<or> m = 42) \<and> ws1 \<noteq> [] \<and> list_all is_ws ws1 \<and> (x = 120 \<or> x = 88))
         \<and> (\<forall>indent m ws1 x rest.
               line = indent @ m # ws1 @ 91 # x # 93 # rest \<and> list_all is_ws indent
               \<and> (m = 45 \<or> m = 42) \<and> ws1 \<noteq> [] \<and> list_all is_ws ws1 \<and> (x = 120 \<or> x = 88)
               \<longrightarrow> taskText line = trim (strip_annot (dropWhile is_ws rest))
                   \<and> (\<forall>tx body w.
                         dropWhile is_ws rest = tx @ 40 # body @ 41 # w \<and> parens_closed tx
                         \<and> body \<noteq> [] \<and> 41 \<notin> set body \<and> list_all is_ws w
                         \<longrightarrow> taskText line = trim tx))"
proof -
  have 1: "remaining (process_line tm line st)
           = remaining st @ [ustr ''- [ ] '' @ taskText line @ ustr '' ('' @ tm @ ustr '')'']"
    using chk rep checked_not_repeat[OF chk] checked_not_normal[OF chk] checked_not_marker[OF chk]
    by (simp add: process_line_def newLine_def)
  have 2: "\<exists>indent m ws1 x rest.
               line = indent @ m # ws1 @ 91 # x # 93 # rest \<and> list_all is_ws indent
               \<and> (m = 45 \<or> m = 42) \<and> ws1 \<noteq> [] \<and> list_all is_ws ws1 \<and> (x = 120 \<or> x = 88)"
    using checked_shape[OF chk] by blast
  have 3: "taskText line = trim (strip_annot (dropWhile is_ws rest))
           \<and> (\<forall>tx body w.
                 dropWhile is_ws rest = tx @ 40 # body @ 41 # w \<and> parens_closed tx
                 \<and> body \<noteq> [] \<and> 41 \<notin> set body \<and> list_all is_ws w
                 \<longrightarrow> taskText line = trim tx)"
    if s: "line = indent @ m # ws1 @ 91 # x # 93 # rest" "list_all is_ws indent"
      "m = 45 \<or> m = 42" "ws1 \<noteq> []" "list_all is_ws ws1" "x = 120 \<or> x = 88"
    for indent m ws1 x rest
  proof -
    have t: "taskText line = trim (strip_annot (dropWhile is_ws rest))"
      unfolding s(1) using s(2-) by (rule taskText_shape)
    then show ?thesis by (auto simp: strip_annot_trailing)
  qed
  from 1 2 3 show ?thesis by blast
qed

text \<open>
  The claim as stated fails on a trailing annotation that holds a \<open>)\<close> or is empty:
  the pattern does not match and the annotation stays in the rewritten line.
\<close>

theorem recurring_rewrite_form_counterexample:
  "remaining (extract_loop (ustr ''2024-01-03'')
      [hdr_repeat, ustr ''  * [X] Call Bob (see note (2))'', ustr ''- [x] Pay rent ()''])
   = [hdr_repeat, ustr ''- [ ] Call Bob (see note (2)) (2024-01-03)'',
      ustr ''- [ ] Pay rent () (2024-01-03)'']"
  by (simp add: extract_loop_def process_line_def extract_init_def str_defs)

theorem recurring_rewrite_form_witness:
  "is_checked (ustr ''  * [X]   Drink (hot) water (2024-01-01) '')
   \<and> remaining (process_line (ustr ''2024-01-03'') (ustr ''  * [X]   Drink (hot) water (2024-01-01) '')
        \<lparr>remaining = [hdr_repeat], doneTasks = [], inRepeatSection = True\<rparr>)
      = [hdr_repeat, ustr ''- [ ] Drink (hot) water (2024-01-03)'']
   \<and> parens_closed (ustr ''Drink (hot) water '')
   \<and> taskText (ustr ''  * [X]   Drink (hot) water (2024-01-01) '') = ustr ''Drink (hot) water''"
proof -
  let ?line = "ustr ''  * [X]   Drink (hot) water (2024-01-01) ''"
  let ?st = "\<lparr>remaining = [hdr_repeat], doneTasks = [], inRepeatSection = True\<rparr>"
  have c: "is_checked ?line" by (simp add: str_defs)
  have r: "inRepeatSection ?st" by simp
  note th = recurring_rewrite_form[OF c r, of "ustr ''2024-01-03''"]
  have sh: "?line = ustr ''  '' @ 42 # ustr '' '' @ 91 # 88 # 93 # ustr ''   Drink (hot) water (2024-01-01) ''
            \<and> list_all is_ws (ustr ''  '') \<and> ((42::nat) = 45 \<or> (42::nat) = 42) \<and> ustr '' '' \<noteq> []
            \<and> list_all is_ws (ustr '' '') \<and> ((88::nat) = 120 \<or> (88::nat) = 88)"
    by (simp add: ustr_def is_ws_def)
  have an: "dropWhile is_ws (ustr ''   Drink (hot) water (2024-01-01) '')
              = ustr ''Drink (hot) water '' @ 40 # ustr ''2024-01-01'' @ 41 # ustr '' ''
            \<and> parens_closed (ustr ''Drink (hot) water '') \<and> ustr ''2024-01-01'' \<noteq> []
            \<and> 41 \<notin> set (ustr ''2024-01-01'') \<and> list_all is_ws (ustr '' '')"
    by (simp add: ustr_def is_ws_def parens_closed_def)
  from th have "taskText ?line = trim (ustr ''Drink (hot) water '')"
    using sh an by blast
  then have t: "taskText ?line = ustr ''Drink (hot) water''"
    by (simp add: ustr_def trim_def is_ws_def)
  from th have "remaining (process_line (ustr ''2024-01-03'') ?line ?st)
      = remaining ?st @ [ustr ''- [ ] '' @ taskText ?line @ ustr '' ('' @ ustr ''2024-01-03'' @ ustr '')'']"
    by blast
  then have "remaining (process_line (ustr ''2024-01-03'') ?line ?st)
      = [hdr_repeat, ustr ''- [ ] Drink (hot) water (2024-01-03)'']"
    unfolding t by (simp add: ustr_def)
  with c t an show ?thesis by blast
qed

section \<open>Merging\<close>

lemmas merge_defs = merge_lines_def merge_finish_def merge_line_def merge_init_def

text \<open>The loop started with some content already written: the content is a prefix of the result.\<close>

lemma merge_fold_shift:
  "fold (merge_line tasks D) ls \<lparr>newContent = nc, inTargetSection = it, sectionFound = fd\<rparr> =
     (let st = fold (merge_line tasks D) ls
                 \<lparr>newContent = [], inTargetSection = it, sectionFound = False\<rparr>
      in \<lparr>newContent = nc @ newContent st, inTargetSection = inTargetSection st,
          sectionFound = (fd \<or> sectionFound st)\<rparr>)"
proof (induction ls rule: rev_induct)
  case Nil
  then show ?case by simp
next
  case (snoc x xs)
  then show ?case by (simp add: Let_def merge_line_def)
qed

lemma merge_fold_found:
  "sectionFound (fold (merge_line tasks D) ls
       \<lparr>newContent = [], inTargetSection = False, sectionFound = False\<rparr>)
     \<longleftrightarrow> (\<exists>l \<in> set ls. trim l = D)"
  by (induction ls rule: rev_induct) (auto simp: merge_line_def)

lemma merge_fold_plain:
  assumes "\<forall>l \<in> set ls. trim l \<noteq> D"
  shows "fold (merge_line tasks D) ls
           \<lparr>newContent = nc, inTargetSection = False, sectionFound = fd\<rparr>
         = \<lparr>newContent = nc @ ls, inTargetSection = False, sectionFound = fd\<rparr>"
  using assms by (induction ls rule: rev_induct) (auto simp: merge_line_def)

lemma merge_fold_open:
  assumes "\<forall>l \<in> set ls. startsWith l hdr_marker \<longrightarrow> trim l = D"
  shows "fold (merge_line tasks D) ls
           \<lparr>newContent = nc, inTargetSection = True, sectionFound = True\<rparr>
         = \<lparr>newContent = nc @ ls, inTargetSection = True, sectionFound = True\<rparr>"
  using assms by (induction ls rule: rev_induct) (auto simp: merge_line_def)

lemma merge_lines_closed_tail:
  "merge_finish tasks D (fold (merge_line tasks D) ls
       \<lparr>newContent = nc, inTargetSection = False, sectionFound = True\<rparr>)
   = nc @ (if \<exists>l \<in> set ls. trim l = D then merge_lines ls tasks D else ls)"
proof (cases "\<exists>l \<in> set ls. trim l = D")
  case True
  then have f: "sectionFound (fold (merge_line tasks D) ls
       \<lparr>newContent = [], inTargetSection = False, sectionFound = False\<rparr>)"
    by (simp add: merge_fold_found)
  show ?thesis using True f
    by (subst merge_fold_shift) (simp add: Let_def merge_finish_def merge_lines_def merge_init_def)
next
  case False
  then have "\<forall>l \<in> set ls. trim l \<noteq> D" by blast
  from merge_fold_plain[OF this] False show ?thesis
    by (simp add: merge_finish_def)
qed

lemma merge_lines_section:
  assumes pre: "\<forall>l \<in> set pre. trim l \<noteq> D"
    and h: "trim h = D"
    and body: "\<forall>l \<in> set body. startsWith l hdr_marker \<longrightarrow> trim l = D"
    and rest: "rest = [] \<or> (startsWith (hd rest) hdr_marker \<and> trim (hd rest) \<noteq> D)"
  shows "merge_lines (pre @ [h] @ body @ rest) tasks D
         = pre @ [h] @ body @ tasks
             @ (if \<exists>l \<in> set rest. trim l = D then merge_lines rest tasks D else rest)"
proof -
  let ?f = "merge_line tasks D"
  have s1: "fold ?f pre merge_init
              = \<lparr>newContent = pre, inTargetSection = False, sectionFound = False\<rparr>"
    using merge_fold_plain[OF pre, of tasks "[]" False] by (simp add: merge_init_def)
  have s2: "fold ?f (pre @ [h]) merge_init
              = \<lparr>newContent = pre @ [h], inTargetSection = True, sectionFound = True\<rparr>"
    using h by (simp add: s1 merge_line_def)
  have s3: "fold ?f (pre @ [h] @ body) merge_init
              = \<lparr>newContent = pre @ [h] @ body, inTargetSection = True, sectionFound = True\<rparr>"
    using merge_fold_open[OF body, of tasks "pre @ [h]"] s2 by simp
  show ?thesis
  proof (cases rest)
    case Nil
    then show ?thesis using s3 by (simp add: merge_lines_def merge_finish_def)
  next
    case (Cons r rs)
    with rest have r: "startsWith r hdr_marker" "trim r \<noteq> D" by auto
    have s4: "fold ?f (pre @ [h] @ body @ [r]) merge_init
                = \<lparr>newContent = pre @ [h] @ body @ tasks @ [r], inTargetSection = False,
                   sectionFound = True\<rparr>"
      using s3 r by (simp add: merge_line_def)
    have "merge_lines (pre @ [h] @ body @ rest) tasks D
            = merge_finish tasks D (fold ?f rs (fold ?f (pre @ [h] @ body @ [r]) merge_init))"
      by (simp add: merge_lines_def Cons)
    also have "\<dots> = (pre @ [h] @ body @ tasks @ [r])
                  @ (if \<exists>l \<in> set rs. trim l = D then merge_lines rs tasks D else rs)"
      by (simp only: s4 merge_lines_closed_tail)
    also have "\<dots> = pre @ [h] @ body @ tasks
                  @ (if \<exists>l \<in> set rest. trim l = D then merge_lines rest tasks D else rest)"
    proof (cases "\<exists>l \<in> set rs. trim l = D")
      case True
      have "merge_lines (r # rs) tasks D = r # merge_lines rs tasks D"
      proof -
        have "fold ?f (r # rs) merge_init
                = fold ?f rs \<lparr>newContent = [r], inTargetSection = False, sectionFound = False\<rparr>"
          using r by (simp add: merge_line_def merge_init_def)
        then show ?thesis using True
          by (simp add: merge_lines_def merge_init_def merge_lines_closed_tail
               merge_fold_shift[of tasks D rs "[r]"] Let_def merge_finish_def merge_fold_found)
      qed
      then show ?thesis using True Cons r by simp
    next
      case False
      then show ?thesis using Cons r by simp
    qed
    finally show ?thesis .
  qed
qed

lemma merge_lines_absent:
  assumes "\<forall>l \<in> set arch. trim l \<noteq> D"
  shows "merge_lines arch tasks D = arch @ (if arch = [] then [] else [[]]) @ D # tasks"
  using merge_fold_plain[OF assms, of tasks "[]" False]
  by (simp add: merge_lines_def merge_init_def merge_finish_def)

subsection \<open>Joining and trimming\<close>

lemma trim_keeps_suffix:
  assumes "q \<noteq> []" "\<not> is_ws (hd q)" "\<not> is_ws (last q)"
  shows "\<exists>p'. trim (p @ q) = p' @ q"
proof -
  have dq: "dropWhile is_ws q = q" using assms by (cases q) auto
  have "\<exists>p'. dropWhile is_ws (p @ q) = p' @ q"
  proof (cases "\<forall>x \<in> set p. is_ws x")
    case True
    then show ?thesis using dq by (simp add: dropWhile_append2)
  next
    case False
    then show ?thesis by (auto simp: dropWhile_append1)
  qed
  then obtain p' where p': "dropWhile is_ws (p @ q) = p' @ q" by blast
  have "rev q \<noteq> []" "\<not> is_ws (hd (rev q))" using assms by (simp_all add: hd_rev)
  then have "dropWhile is_ws (rev q @ rev p') = rev q @ rev p'" by (cases "rev q") auto
  then show ?thesis by (simp add: trim_def p')
qed

lemma join_nl_append:
  "xs \<noteq> [] \<Longrightarrow> ys \<noteq> [] \<Longrightarrow> join_nl (xs @ ys) = join_nl xs @ 10 # join_nl ys"
  by (induction xs rule: join_nl.induct) (auto simp: neq_Nil_conv)

lemma join_nl_last:
  "xs \<noteq> [] \<Longrightarrow> last xs \<noteq> [] \<Longrightarrow> join_nl xs \<noteq> [] \<and> last (join_nl xs) = last (last xs)"
  by (induction xs rule: join_nl.induct) auto

lemma join_nl_hd:
  "x \<noteq> [] \<Longrightarrow> join_nl (x # xs) \<noteq> [] \<and> hd (join_nl (x # xs)) = hd x"
  by (cases xs) auto

lemma trim_blank_prefix:
  assumes "list_all is_ws p" "q \<noteq> []" "\<not> is_ws (hd q)" "\<not> is_ws (last q)"
  shows "trim (p @ q) = q"
proof -
  have "\<forall>x \<in> set p. is_ws x" using assms(1) by (simp add: list_all_iff)
  moreover have "dropWhile is_ws q = q" using assms(2,3) by (cases q) auto
  ultimately have d: "dropWhile is_ws (p @ q) = q" by (simp add: dropWhile_append2)
  have "rev q \<noteq> []" "\<not> is_ws (hd (rev q))" using assms(2,4) by (simp_all add: hd_rev)
  then have "dropWhile is_ws (rev q) = rev q" by (cases "rev q") auto
  then show ?thesis by (simp add: trim_def d)
qed

lemma split_nl_nonempty: "split_nl c \<noteq> []"
  by (induction c) (auto split: list.splits)

lemma split_nl_no_nl: "l \<in> set (split_nl c) \<Longrightarrow> 10 \<notin> set l"
proof (induction c arbitrary: l)
  case Nil
  then show ?case by simp
next
  case (Cons a c)
  then show ?case using split_nl_nonempty[of c]
    by (auto split: if_splits list.splits)
qed

lemma join_split: "join_nl (split_nl c) = c"
proof (induction c)
  case Nil
  then show ?case by simp
next
  case (Cons a c)
  show ?case
  proof (cases "split_nl c")
    case Nil
    then show ?thesis using split_nl_nonempty by blast
  next
    case (Cons l ls)
    then show ?thesis using Cons.IH by (cases ls) auto
  qed
qed

lemma split_join:
  assumes "ls \<noteq> []" "\<forall>l \<in> set ls. 10 \<notin> set l"
  shows "split_nl (join_nl ls) = ls"
  using assms
proof (induction ls rule: join_nl.induct)
  case 1
  then show ?case by simp
next
  case (2 l)
  then have "10 \<notin> set l" by simp
  then have "split_nl l = [l]" by (induction l) auto
  then show ?case by simp
next
  case (3 l v va)
  then have ih: "split_nl (join_nl (v # va)) = v # va" by simp
  from 3 have "10 \<notin> set l" by simp
  then have "split_nl (l @ 10 # join_nl (v # va)) = l # split_nl (join_nl (v # va))"
    by (induction l) auto
  then show ?case using ih by simp
qed

text \<open>
  C2. When no line of the archive is trim-equal to the date header, the merged lines are
  the archive lines, one empty line when there is any archive line, the date header and
  the tasks in their order. The text written back, the joined lines trimmed, then ends
  with the date header and the tasks, as soon as the header does not start and the last
  task does not end with white space (the header is \<open>"### "\<close> and a date, the tasks are
  trimmed task lines). An archive read from a file always has a line, the empty file the
  empty line, so the empty line is always pushed; when the archive is blank, the trim
  leaves the date header and the tasks alone.
\<close>

theorem merge_new_section:
  assumes "\<forall>l \<in> set arch. trim l \<noteq> D" and "tasks \<noteq> []"
  shows "merge_lines arch tasks D = arch @ (if arch = [] then [] else [[]]) @ D # tasks
         \<and> (D \<noteq> [] \<and> \<not> is_ws (hd D) \<and> last tasks \<noteq> [] \<and> \<not> is_ws (last (last tasks))
              \<longrightarrow> (\<exists>front. trim (join_nl (merge_lines arch tasks D)) = front @ join_nl (D # tasks))
                  \<and> (list_all is_ws (join_nl arch)
                       \<longrightarrow> trim (join_nl (merge_lines arch tasks D)) = join_nl (D # tasks)))"
proof -
  have eq: "merge_lines arch tasks D = arch @ (if arch = [] then [] else [[]]) @ D # tasks"
    by (rule merge_lines_absent[OF assms(1)])
  have "(\<exists>front. trim (join_nl (merge_lines arch tasks D)) = front @ join_nl (D # tasks))
        \<and> (list_all is_ws (join_nl arch)
              \<longrightarrow> trim (join_nl (merge_lines arch tasks D)) = join_nl (D # tasks))"
    if h: "D \<noteq> []" "\<not> is_ws (hd D)" "last tasks \<noteq> []" "\<not> is_ws (last (last tasks))"
  proof -
    let ?q = "join_nl (D # tasks)"
    let ?p = "if arch = [] then [] else join_nl arch @ [10, 10]"
    have q: "?q \<noteq> []" "\<not> is_ws (hd ?q)" "\<not> is_ws (last ?q)"
      using h assms(2) join_nl_hd[of D tasks] join_nl_last[of "D # tasks"] by auto
    have j: "join_nl (merge_lines arch tasks D) = ?p @ ?q"
    proof (cases "arch = []")
      case True
      have "merge_lines arch tasks D = D # tasks" using eq True by simp
      then show ?thesis using True by simp
    next
      case False
      have "join_nl ((arch @ [[]]) @ (D # tasks)) = join_nl (arch @ [[]]) @ 10 # ?q"
        by (rule join_nl_append) simp_all
      moreover have "join_nl (arch @ [[]]) = join_nl arch @ 10 # join_nl [[]]"
        using False by (rule join_nl_append) simp
      moreover have "merge_lines arch tasks D = (arch @ [[]]) @ (D # tasks)"
        using eq False by simp
      ultimately show ?thesis using False by simp
    qed
    have 1: "\<exists>front. trim (join_nl (merge_lines arch tasks D)) = front @ ?q"
      unfolding j using q by (rule trim_keeps_suffix)
    have 2: "trim (join_nl (merge_lines arch tasks D)) = ?q" if b: "list_all is_ws (join_nl arch)"
    proof -
      have "list_all is_ws ?p" using b by (simp add: is_ws_def)
      then show ?thesis unfolding j using q by (rule trim_blank_prefix)
    qed
    from 1 2 show ?thesis by blast
  qed
  with eq show ?thesis by blast
qed

theorem merge_new_section_witness:
  "list_all (\<lambda>l. trim l \<noteq> ustr ''### 2024-01-02'') [ustr ''### 2024-01-01'', ustr ''- [x] old'']
   \<and> merge_lines [ustr ''### 2024-01-01'', ustr ''- [x] old''] [ustr ''- [x] a'', ustr ''- [x] b'']
        (ustr ''### 2024-01-02'')
      = [ustr ''### 2024-01-01'', ustr ''- [x] old'', [], ustr ''### 2024-01-02'',
         ustr ''- [x] a'', ustr ''- [x] b'']
   \<and> trim (join_nl (merge_lines [ustr ''### 2024-01-01'', ustr ''- [x] old'']
        [ustr ''- [x] a'', ustr ''- [x] b''] (ustr ''### 2024-01-02'')))
      = (ustr ''### 2024-01-01'' @ 10 # ustr ''- [x] old'' @ [10, 10])
          @ join_nl [ustr ''### 2024-01-02'', ustr ''- [x] a'', ustr ''- [x] b'']
   \<and> merge_lines (split_nl []) [ustr ''- [x] a'', ustr ''- [x] b''] (ustr ''### 2024-01-02'')
      = [[], [], ustr ''### 2024-01-02'', ustr ''- [x] a'', ustr ''- [x] b'']
   \<and> trim (join_nl (merge_lines (split_nl []) [ustr ''- [x] a'', ustr ''- [x] b'']
        (ustr ''### 2024-01-02'')))
      = join_nl [ustr ''### 2024-01-02'', ustr ''- [x] a'', ustr ''- [x] b'']"
proof -
  let ?D = "ustr ''### 2024-01-02''" and ?ts = "[ustr ''- [x] a'', ustr ''- [x] b'']"
  have h: "\<forall>l \<in> set [ustr ''### 2024-01-01'', ustr ''- [x] old'']. trim l \<noteq> ?D"
    by (simp add: ustr_def trim_def is_ws_def)
  have h0: "\<forall>l \<in> set (split_nl []). trim l \<noteq> ?D"
    by (simp add: ustr_def trim_def)
  have t: "?ts \<noteq> []" by simp
  have side: "?D \<noteq> [] \<and> \<not> is_ws (hd ?D) \<and> last ?ts \<noteq> [] \<and> \<not> is_ws (last (last ?ts))"
    by (simp add: ustr_def is_ws_def)
  have blank: "list_all is_ws (join_nl (split_nl []))" by simp
  have m: "merge_lines [ustr ''### 2024-01-01'', ustr ''- [x] old''] ?ts ?D
      = [ustr ''### 2024-01-01'', ustr ''- [x] old'', [], ?D, ustr ''- [x] a'', ustr ''- [x] b'']"
    using merge_new_section[OF h t] by simp
  have j: "trim (join_nl [ustr ''### 2024-01-01'', ustr ''- [x] old'', [], ?D,
         ustr ''- [x] a'', ustr ''- [x] b''])
      = (ustr ''### 2024-01-01'' @ 10 # ustr ''- [x] old'' @ [10, 10])
          @ join_nl [?D, ustr ''- [x] a'', ustr ''- [x] b'']"
    by (simp add: ustr_def trim_def is_ws_def)
  have m0: "merge_lines (split_nl []) ?ts ?D = [[], [], ?D, ustr ''- [x] a'', ustr ''- [x] b'']"
    using merge_new_section[OF h0 t] by simp
  have j0: "trim (join_nl (merge_lines (split_nl []) ?ts ?D)) = join_nl (?D # ?ts)"
    using merge_new_section[OF h0 t] side blank by blast
  show ?thesis using h m j m0 j0 by (simp only: list_all_iff simp_thms)
qed

text \<open>
  C3. When exactly one line of the archive is trim-equal to the date header, the archive is
  \<open>pre @ [h] @ body @ rest\<close>: \<open>h\<close> that line, \<open>body\<close> the lines after it up to the next line
  that starts with \<open>"### "\<close>, \<open>rest\<close> that line and all that follows. The tasks are
  inserted between \<open>body\<close> and \<open>rest\<close>: at the end of the date's section, before the next
  header or at the end of the archive, and the later sections follow as they were.
\<close>

theorem merge_existing_section:
  assumes one: "length (filter (\<lambda>l. trim l = D) arch) = 1"
  shows "let pre = takeWhile (\<lambda>l. trim l \<noteq> D) arch;
             h = hd (dropWhile (\<lambda>l. trim l \<noteq> D) arch);
             after = tl (dropWhile (\<lambda>l. trim l \<noteq> D) arch);
             body = takeWhile (\<lambda>l. \<not> startsWith l hdr_marker) after;
             rest = dropWhile (\<lambda>l. \<not> startsWith l hdr_marker) after
         in arch = pre @ [h] @ body @ rest \<and> trim h = D
            \<and> merge_lines arch tasks D = pre @ [h] @ body @ tasks @ rest"
proof -
  define pre where "pre = takeWhile (\<lambda>l. trim l \<noteq> D) arch"
  define sec where "sec = dropWhile (\<lambda>l. trim l \<noteq> D) arch"
  define body where "body = takeWhile (\<lambda>l. \<not> startsWith l hdr_marker) (tl sec)"
  define rest where "rest = dropWhile (\<lambda>l. \<not> startsWith l hdr_marker) (tl sec)"
  from one obtain y where y: "filter (\<lambda>l. trim l = D) arch = [y]"
    by (cases "filter (\<lambda>l. trim l = D) arch") simp_all
  from filter_eq_ConsD[OF y] obtain us vs where arch: "arch = us @ y # vs"
    and us: "\<forall>u \<in> set us. trim u \<noteq> D" and ty: "trim y = D"
    and fvs: "[] = filter (\<lambda>l. trim l = D) vs"
    by blast
  from fvs have "filter (\<lambda>l. trim l = D) vs = []" by simp
  then have vs: "\<forall>l \<in> set vs. trim l \<noteq> D" by (simp add: filter_empty_conv)
  have pre: "pre = us" unfolding pre_def arch using us ty by (simp add: takeWhile_append2)
  have sec: "sec = y # vs" unfolding sec_def arch using us ty by (simp add: dropWhile_append2)
  have vs_split: "vs = body @ rest" unfolding body_def rest_def sec by simp
  have dec: "arch = pre @ [hd sec] @ body @ rest"
    using arch vs_split by (simp add: pre sec)
  have p: "\<forall>l \<in> set pre. trim l \<noteq> D" using us by (simp only: pre)
  have b: "\<forall>l \<in> set body. startsWith l hdr_marker \<longrightarrow> trim l = D"
    unfolding body_def by (auto dest: set_takeWhileD)
  have r: "rest = [] \<or> (startsWith (hd rest) hdr_marker \<and> trim (hd rest) \<noteq> D)"
  proof (cases "rest = []")
    case True
    then show ?thesis by (rule disjI1)
  next
    case False
    then have "startsWith (hd rest) hdr_marker"
      unfolding rest_def using hd_dropWhile by blast
    moreover have "hd rest \<in> set vs" using False vs_split by (cases rest) auto
    ultimately show ?thesis using vs by blast
  qed
  have nr: "\<not> (\<exists>l \<in> set rest. trim l = D)" using vs vs_split by auto
  have h: "trim (hd sec) = D" using ty by (simp add: sec)
  have "merge_lines (pre @ [hd sec] @ body @ rest) tasks D
          = pre @ [hd sec] @ body @ tasks @ rest"
    using merge_lines_section[OF p h b r, of tasks] nr by simp
  then have "merge_lines arch tasks D = pre @ [hd sec] @ body @ tasks @ rest"
    using dec by simp
  with dec h show ?thesis
    unfolding Let_def pre_def sec_def body_def rest_def by blast
qed

theorem merge_existing_section_witness:
  "length (filter (\<lambda>l. trim l = ustr ''### 2024-01-02'')
      [ustr ''# Done'', ustr ''### 2024-01-02'', ustr ''- [x] a'', [],
       ustr ''### 2024-01-01'', ustr ''- [x] old'']) = 1
   \<and> merge_lines
      [ustr ''# Done'', ustr ''### 2024-01-02'', ustr ''- [x] a'', [],
       ustr ''### 2024-01-01'', ustr ''- [x] old''] [ustr ''- [x] b'']
        (ustr ''### 2024-01-02'')
      = [ustr ''# Done'', ustr ''### 2024-01-02'', ustr ''- [x] a'', [], ustr ''- [x] b'',
         ustr ''### 2024-01-01'', ustr ''- [x] old'']"
proof -
  have h: "length (filter (\<lambda>l. trim l = ustr ''### 2024-01-02'')
      [ustr ''# Done'', ustr ''### 2024-01-02'', ustr ''- [x] a'', [],
       ustr ''### 2024-01-01'', ustr ''- [x] old'']) = 1"
    by (simp add: ustr_def trim_def is_ws_def)
  show ?thesis
    using h merge_existing_section[OF h, of "[ustr ''- [x] b'']"]
    by (simp add: Let_def ustr_def trim_def is_ws_def startsWith_def hdr_marker_def)
qed

text \<open>
  C4, as the code has it. Every line trim-equal to the date header opens the target section
  or keeps it open; only a line that starts with \<open>"### "\<close> and is not trim-equal to the date
  header closes it. With the archive \<open>pre @ [h] @ body @ rest\<close>, \<open>h\<close> the first such line,
  \<open>body\<close> free of closing lines (it may hold further lines trim-equal to the date header)
  and \<open>rest\<close> empty or starting with a closing line, the tasks are inserted after \<open>body\<close>,
  so after every duplicate header in it; and \<open>rest\<close> is merged in the same way again
  when it holds another line trim-equal to the date header.
\<close>

theorem merge_duplicate_headers:
  assumes pre: "\<forall>l \<in> set pre. trim l \<noteq> D"
    and h: "trim h = D"
    and body: "\<forall>l \<in> set body. startsWith l hdr_marker \<longrightarrow> trim l = D"
    and rest: "rest = [] \<or> (startsWith (hd rest) hdr_marker \<and> trim (hd rest) \<noteq> D)"
  shows "merge_lines (pre @ [h] @ body @ rest) tasks D
         = pre @ [h] @ body @ tasks
             @ (if \<exists>l \<in> set rest. trim l = D then merge_lines rest tasks D else rest)"
  using assms by (rule merge_lines_section)

text \<open>
  The claim as stated fails on an archive with the date header twice: the task comes
  after the second header, and when another header stands between the two, the task is
  inserted twice.
\<close>

theorem merge_duplicate_headers_counterexample:
  "merge_lines [ustr ''### 2024-01-02'', ustr ''- [x] a'', ustr ''### 2024-01-02'', ustr ''- [x] b'']
       [ustr ''- [x] t''] (ustr ''### 2024-01-02'')
     = [ustr ''### 2024-01-02'', ustr ''- [x] a'', ustr ''### 2024-01-02'', ustr ''- [x] b'',
        ustr ''- [x] t'']
   \<and> merge_lines [ustr ''### 2024-01-02'', ustr ''- [x] a'', ustr ''### 2024-01-01'',
        ustr ''- [x] old'', ustr ''### 2024-01-02'', ustr ''- [x] b'']
       [ustr ''- [x] t''] (ustr ''### 2024-01-02'')
     = [ustr ''### 2024-01-02'', ustr ''- [x] a'', ustr ''- [x] t'', ustr ''### 2024-01-01'',
        ustr ''- [x] old'', ustr ''### 2024-01-02'', ustr ''- [x] b'', ustr ''- [x] t'']"
  by (simp add: merge_defs ustr_def trim_def is_ws_def startsWith_def hdr_marker_def)

theorem merge_duplicate_headers_witness:
  "list_all (\<lambda>l. trim l \<noteq> ustr ''### 2024-01-02'') [ustr ''# Done'']
   \<and> trim (ustr ''### 2024-01-02  '') = ustr ''### 2024-01-02''
   \<and> list_all (\<lambda>l. \<not> startsWith l hdr_marker \<or> trim l = ustr ''### 2024-01-02'')
        [ustr ''- [x] a'', ustr ''### 2024-01-02'', ustr ''- [x] b'']
   \<and> merge_lines
        ([ustr ''# Done''] @ [ustr ''### 2024-01-02  '']
          @ [ustr ''- [x] a'', ustr ''### 2024-01-02'', ustr ''- [x] b'']
          @ [ustr ''### 2024-01-01'', ustr ''- [x] old'', ustr ''### 2024-01-02''])
        [ustr ''- [x] t''] (ustr ''### 2024-01-02'')
     = [ustr ''# Done'', ustr ''### 2024-01-02  '', ustr ''- [x] a'', ustr ''### 2024-01-02'',
        ustr ''- [x] b'', ustr ''- [x] t'', ustr ''### 2024-01-01'', ustr ''- [x] old'',
        ustr ''### 2024-01-02'', ustr ''- [x] t'']"
proof -
  let ?D = "ustr ''### 2024-01-02''"
  have p: "\<forall>l \<in> set [ustr ''# Done'']. trim l \<noteq> ?D"
    by (simp add: ustr_def trim_def is_ws_def)
  have h: "trim (ustr ''### 2024-01-02  '') = ?D"
    by (simp add: ustr_def trim_def is_ws_def)
  have b: "\<forall>l \<in> set [ustr ''- [x] a'', ustr ''### 2024-01-02'', ustr ''- [x] b''].
             startsWith l hdr_marker \<longrightarrow> trim l = ?D"
    by (simp add: ustr_def trim_def is_ws_def startsWith_def hdr_marker_def)
  have r: "[ustr ''### 2024-01-01'', ustr ''- [x] old'', ustr ''### 2024-01-02''] = []
           \<or> (startsWith (hd [ustr ''### 2024-01-01'', ustr ''- [x] old'', ustr ''### 2024-01-02''])
                 hdr_marker
              \<and> trim (hd [ustr ''### 2024-01-01'', ustr ''- [x] old'', ustr ''### 2024-01-02''])
                 \<noteq> ?D)"
    by (simp add: ustr_def trim_def is_ws_def startsWith_def hdr_marker_def)
  have t: "merge_lines [ustr ''### 2024-01-01'', ustr ''- [x] old'', ustr ''### 2024-01-02'']
             [ustr ''- [x] t''] ?D
           = [ustr ''### 2024-01-01'', ustr ''- [x] old'', ustr ''### 2024-01-02'', ustr ''- [x] t'']"
    by (simp add: merge_defs ustr_def trim_def is_ws_def startsWith_def hdr_marker_def)
  have e: "\<exists>l \<in> set [ustr ''### 2024-01-01'', ustr ''- [x] old'', ustr ''### 2024-01-02''].
             trim l = ?D"
    by (simp add: ustr_def trim_def is_ws_def)
  have "merge_lines
        ([ustr ''# Done''] @ [ustr ''### 2024-01-02  '']
          @ [ustr ''- [x] a'', ustr ''### 2024-01-02'', ustr ''- [x] b'']
          @ [ustr ''### 2024-01-01'', ustr ''- [x] old'', ustr ''### 2024-01-02''])
        [ustr ''- [x] t''] ?D
     = [ustr ''# Done'', ustr ''### 2024-01-02  '', ustr ''- [x] a'', ustr ''### 2024-01-02'',
        ustr ''- [x] b'', ustr ''- [x] t'', ustr ''### 2024-01-01'', ustr ''- [x] old'',
        ustr ''### 2024-01-02'', ustr ''- [x] t'']"
    using merge_duplicate_headers[OF p h b r, of "[ustr ''- [x] t'']"] t e
    by (simp only: if_True append.simps)
  moreover have "list_all (\<lambda>l. \<not> startsWith l hdr_marker \<or> trim l = ?D)
        [ustr ''- [x] a'', ustr ''### 2024-01-02'', ustr ''- [x] b'']"
    using b by (simp only: list_all_iff imp_conv_disj)
  moreover have "list_all (\<lambda>l. trim l \<noteq> ?D) [ustr ''# Done'']"
    using p by (simp only: list_all_iff)
  ultimately show ?thesis using h by blast
qed

subsection \<open>Where the tasks land\<close>

lemma fold_snoc: "fold f (xs @ [x]) s = f x (fold f xs s)"
  by simp

lemma under_header_append:
  "under_header D l s (xs @ ys) \<longleftrightarrow>
     under_header D l s xs \<or> under_header D l (fold (date_section_step D) xs s) ys"
  by (induction xs arbitrary: s) (auto simp: date_section_step_def)

lemma under_header_plain:
  assumes "l \<in> set ys" "\<forall>t \<in> set ys. trim t \<noteq> D \<and> \<not> startsWith t hdr_marker"
  shows "under_header D l True ys"
  using assms by (induction ys) auto

lemma merge_line_keeps:
  assumes l: "l \<in> set tasks"
    and plain: "\<forall>t \<in> set tasks. trim t \<noteq> D \<and> \<not> startsWith t hdr_marker"
    and op: "inTargetSection st \<longrightarrow> sectionFound st \<and> target_open D (newContent st)"
    and cl: "sectionFound st \<and> \<not> inTargetSection st \<longrightarrow> under_header D l False (newContent st)"
  shows "(inTargetSection (merge_line tasks D x st)
            \<longrightarrow> sectionFound (merge_line tasks D x st)
                \<and> target_open D (newContent (merge_line tasks D x st)))
         \<and> (sectionFound (merge_line tasks D x st) \<and> \<not> inTargetSection (merge_line tasks D x st)
            \<longrightarrow> under_header D l False (newContent (merge_line tasks D x st)))"
proof -
  have u: "under_header D l True tasks" using l plain by (rule under_header_plain)
  show ?thesis
  proof (cases "trim x = D")
    case True
    then show ?thesis by (simp add: merge_line_def date_section_step_def target_open_def)
  next
    case nd: False
    show ?thesis
    proof (cases "inTargetSection st \<and> startsWith x hdr_marker")
      case True
      then have "target_open D (newContent st)" using op by blast
      then have "under_header D l False (newContent st @ tasks @ [x])"
        using u by (simp add: under_header_append target_open_def)
      then show ?thesis using nd True op by (simp add: merge_line_def)
    next
      case False
      then show ?thesis using nd op cl
        by (auto simp: merge_line_def date_section_step_def under_header_append target_open_def)
    qed
  qed
qed

lemma merge_fold_invariant:
  assumes l: "l \<in> set tasks"
    and plain: "\<forall>t \<in> set tasks. trim t \<noteq> D \<and> \<not> startsWith t hdr_marker"
  shows "(inTargetSection (fold (merge_line tasks D) ls merge_init)
            \<longrightarrow> sectionFound (fold (merge_line tasks D) ls merge_init)
                \<and> target_open D (newContent (fold (merge_line tasks D) ls merge_init)))
         \<and> (sectionFound (fold (merge_line tasks D) ls merge_init)
              \<and> \<not> inTargetSection (fold (merge_line tasks D) ls merge_init)
            \<longrightarrow> under_header D l False (newContent (fold (merge_line tasks D) ls merge_init)))"
proof (induction ls rule: rev_induct)
  case Nil
  then show ?case by (simp add: merge_init_def)
next
  case (snoc x xs)
  show ?case unfolding fold_snoc
    using snoc.IH[THEN conjunct1] snoc.IH[THEN conjunct2]
    by (rule merge_line_keeps[OF l plain])
qed

lemma merge_puts_under_header:
  assumes l: "l \<in> set tasks"
    and plain: "\<forall>t \<in> set tasks. trim t \<noteq> D \<and> \<not> startsWith t hdr_marker"
    and D: "trim D = D"
  shows "under_header D l False (merge_lines arch tasks D)"
proof -
  let ?st = "fold (merge_line tasks D) arch merge_init"
  note inv = merge_fold_invariant[OF l plain, of arch]
  have u: "under_header D l True tasks" using l plain by (rule under_header_plain)
  consider (a) "sectionFound ?st \<and> inTargetSection ?st"
    | (b) "\<not> sectionFound ?st" | (c) "sectionFound ?st \<and> \<not> inTargetSection ?st"
    by blast
  then show ?thesis
  proof cases
    case a
    then show ?thesis using inv u
      by (simp add: merge_lines_def merge_finish_def under_header_append target_open_def)
  next
    case b
    then show ?thesis using u D
      by (simp add: merge_lines_def merge_finish_def under_header_append)
  next
    case c
    then show ?thesis using inv by (simp add: merge_lines_def merge_finish_def)
  qed
qed

text \<open>
  C1. In any task file in which \<open>- [x] Drink water (2024-01-01)\<close> is a line of the
  recurring section, with tomorrow formatted as \<open>2024-01-03\<close>, the loop keeps
  \<open>- [ ] Drink water (2024-01-03)\<close> and puts the checked line among the done tasks; and
  whatever the archive holds, the merge under the date header \<open>### 2024-01-02\<close> places
  the checked line inside the section of that header.
\<close>

theorem drink_water_example:
  assumes i: "i < length lines"
    and L: "lines ! i = ustr ''- [x] Drink water (2024-01-01)''"
    and sec: "in_repeat_at lines i"
  shows "ustr ''- [ ] Drink water (2024-01-03)''
           \<in> set (remaining (extract_loop (ustr ''2024-01-03'') lines))
         \<and> ustr ''- [x] Drink water (2024-01-01)''
           \<in> set (doneTasks (extract_loop (ustr ''2024-01-03'') lines))
         \<and> under_header (ustr ''### 2024-01-02'') (ustr ''- [x] Drink water (2024-01-01)'') False
             (merge_lines arch (doneTasks (extract_loop (ustr ''2024-01-03'') lines))
                (ustr ''### 2024-01-02''))"
proof -
  let ?L = "ustr ''- [x] Drink water (2024-01-01)''" and ?D = "ustr ''### 2024-01-02''"
  let ?tm = "ustr ''2024-01-03''"
  have c: "is_checked (lines ! i)" unfolding L by (simp add: str_defs)
  have t: "trim (lines ! i) = ?L" unfolding L by (simp add: ustr_def trim_def is_ws_def)
  have n: "newLine (taskText (lines ! i)) ?tm = ustr ''- [ ] Drink water (2024-01-03)''"
    unfolding L by (simp add: str_defs)
  from extract_checked_line[OF i c, of ?tm] sec
  have d: "?L \<in> set (doneTasks (extract_loop ?tm lines))"
    and r: "ustr ''- [ ] Drink water (2024-01-03)'' \<in> set (remaining (extract_loop ?tm lines))"
    unfolding t n by blast+
  have sD: "startsWith ?D hdr_marker" by (simp add: startsWith_def hdr_marker_def ustr_def)
  have tD: "trim ?D = ?D" by (simp add: ustr_def trim_def is_ws_def)
  from merge_puts_under_header[OF d doneTasks_plain[OF sD] tD] r d show ?thesis by blast
qed

text \<open>The example as a whole pass over a vault without archive: both files as they are written.\<close>

lemma drink_water_pass:
  "processTaskFile
      \<lparr>taskFile = ustr ''task.md'', doneFile = ustr ''task_done.md'', dateFormat = [],
       autoOpenTaskFile = True\<rparr>
      \<lparr>format_today = (\<lambda>_. ustr ''2024-01-02''), format_tomorrow = (\<lambda>_. ustr ''2024-01-03'')\<rparr>
      (ustr ''task.md'')
      \<lparr>files = [ustr ''task.md'' \<mapsto> hdr_repeat @ 10 # ustr ''- [x] Drink water (2024-01-01)''],
       writes = []\<rparr>
    = Inr \<lparr>files =
             [ustr ''task.md'' \<mapsto> hdr_repeat @ 10 # ustr ''- [ ] Drink water (2024-01-03)'',
              ustr ''task_done.md'' \<mapsto>
                ustr ''### 2024-01-02'' @ 10 # ustr ''- [x] Drink water (2024-01-01)''],
           writes =
             [Modify (ustr ''task.md'')
                (hdr_repeat @ 10 # ustr ''- [ ] Drink water (2024-01-03)''),
              Create (ustr ''task_done.md'') [],
              Modify (ustr ''task_done.md'')
                (ustr ''### 2024-01-02'' @ 10 # ustr ''- [x] Drink water (2024-01-01)'')]\<rparr>"
  by (simp add: processTaskFile_def appendDoneTasks_def vault_modify_def vault_create_def
        effective_dateFormat_def Let_def extract_loop_def process_line_def extract_init_def
        merge_defs str_defs)

theorem drink_water_example_witness:
  "in_repeat_at [ustr ''### Inbox'', ustr ''- [x] Buy milk'', hdr_repeat, [],
       ustr ''- [x] Drink water (2024-01-01)'', hdr_normal] 4
   \<and> remaining (extract_loop (ustr ''2024-01-03'')
        [ustr ''### Inbox'', ustr ''- [x] Buy milk'', hdr_repeat, [],
         ustr ''- [x] Drink water (2024-01-01)'', hdr_normal])
      = [ustr ''### Inbox'', hdr_repeat, [], ustr ''- [ ] Drink water (2024-01-03)'', hdr_normal]
   \<and> doneTasks (extract_loop (ustr ''2024-01-03'')
        [ustr ''### Inbox'', ustr ''- [x] Buy milk'', hdr_repeat, [],
         ustr ''- [x] Drink water (2024-01-01)'', hdr_normal])
      = [ustr ''- [x] Buy milk'', ustr ''- [x] Drink water (2024-01-01)'']
   \<and> under_header (ustr ''### 2024-01-02'') (ustr ''- [x] Drink water (2024-01-01)'') False
        (merge_lines [ustr ''### 2024-01-02'', ustr ''- [x] old'', ustr ''### 2024-01-01'']
           (doneTasks (extract_loop (ustr ''2024-01-03'')
              [ustr ''### Inbox'', ustr ''- [x] Buy milk'', hdr_repeat, [],
               ustr ''- [x] Drink water (2024-01-01)'', hdr_normal]))
           (ustr ''### 2024-01-02''))
   \<and> merge_lines [ustr ''### 2024-01-02'', ustr ''- [x] old'', ustr ''### 2024-01-01'']
        [ustr ''- [x] Buy milk'', ustr ''- [x] Drink water (2024-01-01)''] (ustr ''### 2024-01-02'')
      = [ustr ''### 2024-01-02'', ustr ''- [x] old'', ustr ''- [x] Buy milk'',
         ustr ''- [x] Drink water (2024-01-01)'', ustr ''### 2024-01-01'']"
proof -
  let ?ls = "[ustr ''### Inbox'', ustr ''- [x] Buy milk'', hdr_repeat, [],
       ustr ''- [x] Drink water (2024-01-01)'', hdr_normal]"
  have i: "(4::nat) < length ?ls" by simp
  have L: "?ls ! 4 = ustr ''- [x] Drink water (2024-01-01)''" by simp
  have s: "in_repeat_at ?ls 4" by (simp add: in_repeat_at_def section_step_def str_defs)
  have r: "remaining (extract_loop (ustr ''2024-01-03'') ?ls)
      = [ustr ''### Inbox'', hdr_repeat, [], ustr ''- [ ] Drink water (2024-01-03)'', hdr_normal]"
    by (simp add: extract_loop_def process_line_def extract_init_def str_defs)
  have d: "doneTasks (extract_loop (ustr ''2024-01-03'') ?ls)
      = [ustr ''- [x] Buy milk'', ustr ''- [x] Drink water (2024-01-01)'']"
    by (simp add: extract_loop_def process_line_def extract_init_def str_defs)
  have m: "merge_lines [ustr ''### 2024-01-02'', ustr ''- [x] old'', ustr ''### 2024-01-01'']
        [ustr ''- [x] Buy milk'', ustr ''- [x] Drink water (2024-01-01)''] (ustr ''### 2024-01-02'')
      = [ustr ''### 2024-01-02'', ustr ''- [x] old'', ustr ''- [x] Buy milk'',
         ustr ''- [x] Drink water (2024-01-01)'', ustr ''### 2024-01-01'']"
    by (simp add: merge_defs ustr_def trim_def is_ws_def startsWith_def hdr_marker_def)
  from drink_water_example[OF i L s,
      of "[ustr ''### 2024-01-02'', ustr ''- [x] old'', ustr ''### 2024-01-01'']"] s r d m
  show ?thesis by blast
qed

subsection \<open>What the merge keeps\<close>

lemma merge_line_content:
  "newContent (merge_line tasks D x st) = newContent st @ [x]
   \<or> newContent (merge_line tasks D x st) = newContent st @ tasks @ [x]"
  by (simp add: merge_line_def)

lemma merge_fold_subseq:
  "subseq ls (newContent (fold (merge_line tasks D) ls merge_init))"
proof (induction ls rule: rev_induct)
  case Nil
  then show ?case by (simp add: merge_init_def)
next
  case (snoc x xs)
  let ?st = "fold (merge_line tasks D) xs merge_init"
  have a: "subseq (xs @ [x]) (newContent ?st @ [x])"
    using snoc.IH by (rule list_emb_append_mono) simp
  have "subseq [x] (tasks @ [x])" by (rule list_emb_append2) simp
  with snoc.IH have b: "subseq (xs @ [x]) (newContent ?st @ tasks @ [x])"
    by (rule list_emb_append_mono)
  from merge_line_content[of tasks D x ?st] a b show ?case
    unfolding fold_snoc by auto
qed

lemma merge_lines_subseq: "subseq arch (merge_lines arch tasks D)"
proof -
  let ?st = "fold (merge_line tasks D) arch merge_init"
  have "\<exists>e. merge_lines arch tasks D = newContent ?st @ e"
    by (simp add: merge_lines_def merge_finish_def)
  then obtain e where "merge_lines arch tasks D = newContent ?st @ e" by blast
  then show ?thesis using merge_fold_subseq[of arch tasks D] by (simp add: subseq_rev_drop_many)
qed

lemma rtrim_decomp: "t = rev (dropWhile P (rev t)) @ rev (takeWhile P (rev t))"
proof -
  have "rev (rev t) = rev (takeWhile P (rev t) @ dropWhile P (rev t))"
    by (simp only: takeWhile_dropWhile_id)
  then show ?thesis by (simp only: rev_rev_ident rev_append)
qed

lemma rtrim_ends:
  assumes "rev (dropWhile P (rev t)) \<noteq> []"
  shows "hd (rev (dropWhile P (rev t))) = hd t \<and> \<not> P (last (rev (dropWhile P (rev t))))"
proof -
  let ?a = "rev (dropWhile P (rev t))"
  have "hd (?a @ rev (takeWhile P (rev t))) = hd ?a" using assms by (rule hd_append2)
  then have 1: "hd ?a = hd t" using rtrim_decomp[of t P] by simp
  have d: "dropWhile P (rev t) \<noteq> []" using assms by simp
  have "last ?a = hd (dropWhile P (rev t))" using d by (simp only: last_rev)
  then have 2: "\<not> P (last ?a)" using hd_dropWhile[OF d] by simp
  from 1 2 show ?thesis by blast
qed

lemma trim_decomp:
  "\<exists>p q. s = p @ trim s @ q \<and> list_all is_ws p \<and> list_all is_ws q"
proof -
  let ?p = "takeWhile is_ws s" and ?q = "rev (takeWhile is_ws (rev (dropWhile is_ws s)))"
  have "dropWhile is_ws s = trim s @ ?q"
    unfolding trim_def by (rule rtrim_decomp)
  then have "?p @ dropWhile is_ws s = ?p @ trim s @ ?q" by (rule arg_cong)
  then have "s = ?p @ trim s @ ?q" by (simp only: takeWhile_dropWhile_id)
  moreover have "list_all is_ws ?p" "list_all is_ws ?q"
    by (auto simp: list_all_iff dest: set_takeWhileD)
  ultimately show ?thesis by blast
qed

lemma trim_ends:
  assumes "trim s \<noteq> []"
  shows "\<not> is_ws (hd (trim s)) \<and> \<not> is_ws (last (trim s))"
proof -
  from assms have n: "rev (dropWhile is_ws (rev (dropWhile is_ws s))) \<noteq> []"
    unfolding trim_def .
  from rtrim_ends[OF n] have h: "hd (trim s) = hd (dropWhile is_ws s)"
    and l: "\<not> is_ws (last (trim s))" unfolding trim_def by blast+
  have "dropWhile is_ws s \<noteq> []"
  proof
    assume e: "dropWhile is_ws s = []"
    have "rev (dropWhile is_ws (rev (dropWhile is_ws s))) = []" unfolding e by simp
    with n show False ..
  qed
  then have "\<not> is_ws (hd (dropWhile is_ws s))" by (rule hd_dropWhile)
  with h l show ?thesis by simp
qed

text \<open>
  C5, as the code has it. Every line of the archive is a line of the merged lines, in the
  same order. The text written back is the merged lines joined and trimmed at both ends:
  it differs from the joined lines by white space removed at the start and at the end
  (blank lines, the indentation of the first line that is not blank, the trailing spaces of
  the last), and it neither starts nor ends with white space. No other file is touched.
\<close>

theorem archive_lines_kept:
  "subseq (split_nl (case files w (doneFile s) of None \<Rightarrow> [] | Some c \<Rightarrow> c))
     (merge_lines (split_nl (case files w (doneFile s) of None \<Rightarrow> [] | Some c \<Rightarrow> c)) tasks
        (hdr_marker @ format_today cl fmt))
   \<and> (\<exists>W p q.
         files (appendDoneTasks s cl tasks fmt w) (doneFile s) = Some W
         \<and> join_nl (merge_lines
              (split_nl (case files w (doneFile s) of None \<Rightarrow> [] | Some c \<Rightarrow> c))
              tasks (hdr_marker @ format_today cl fmt)) = p @ W @ q
         \<and> list_all is_ws p \<and> list_all is_ws q
         \<and> (W \<noteq> [] \<longrightarrow> \<not> is_ws (hd W) \<and> \<not> is_ws (last W)))
   \<and> (\<forall>f. f \<noteq> doneFile s \<longrightarrow> files (appendDoneTasks s cl tasks fmt w) f = files w f)"
proof -
  let ?c = "case files w (doneFile s) of None \<Rightarrow> [] | Some c \<Rightarrow> c"
  let ?M = "merge_lines (split_nl ?c) tasks (hdr_marker @ format_today cl fmt)"
  have w: "files (appendDoneTasks s cl tasks fmt w) (doneFile s) = Some (trim (join_nl ?M))"
    by (simp add: appendDoneTasks_def vault_modify_def vault_create_def Let_def
          split: option.splits)
  have o: "\<forall>f. f \<noteq> doneFile s \<longrightarrow> files (appendDoneTasks s cl tasks fmt w) f = files w f"
    by (simp add: appendDoneTasks_def vault_modify_def vault_create_def Let_def
          split: option.splits)
  from trim_decomp[of "join_nl ?M"] obtain p q
    where d: "join_nl ?M = p @ trim (join_nl ?M) @ q" "list_all is_ws p" "list_all is_ws q"
    by blast
  have e: "trim (join_nl ?M) \<noteq> [] \<longrightarrow>
             \<not> is_ws (hd (trim (join_nl ?M))) \<and> \<not> is_ws (last (trim (join_nl ?M)))"
    using trim_ends by blast
  from w d e have "\<exists>W p q.
         files (appendDoneTasks s cl tasks fmt w) (doneFile s) = Some W
         \<and> join_nl ?M = p @ W @ q \<and> list_all is_ws p \<and> list_all is_ws q
         \<and> (W \<noteq> [] \<longrightarrow> \<not> is_ws (hd W) \<and> \<not> is_ws (last W))"
    by blast
  then show ?thesis using merge_lines_subseq o by blast
qed

text \<open>
  The claim as stated fails on an archive that starts with a blank line and an indented
  line: the blank line and the indentation are not in the text written back.
\<close>

theorem archive_lines_kept_counterexample:
  "files (appendDoneTasks
      \<lparr>taskFile = ustr ''task.md'', doneFile = ustr ''task_done.md'', dateFormat = [],
       autoOpenTaskFile = True\<rparr>
      \<lparr>format_today = (\<lambda>_. ustr ''2024-01-02''), format_tomorrow = (\<lambda>_. ustr ''2024-01-03'')\<rparr>
      [ustr ''- [x] t''] (ustr ''YYYY-MM-DD'')
      \<lparr>files = [ustr ''task_done.md'' \<mapsto> 10 # ustr ''  old notes'' @ 10 # ustr ''### 2024-01-01''],
       writes = []\<rparr>)
      (ustr ''task_done.md'')
   = Some (ustr ''old notes'' @ 10 # ustr ''### 2024-01-01'' @ 10 # 10 # ustr ''### 2024-01-02''
            @ 10 # ustr ''- [x] t'')"
  by (simp add: appendDoneTasks_def vault_modify_def vault_create_def Let_def merge_defs
        ustr_def trim_def is_ws_def startsWith_def hdr_marker_def)

theorem archive_lines_kept_witness:
  "subseq [[], ustr ''  old notes'', ustr ''### 2024-01-01'']
     (merge_lines [[], ustr ''  old notes'', ustr ''### 2024-01-01''] [ustr ''- [x] t'']
        (ustr ''### 2024-01-02''))
   \<and> files (appendDoneTasks
        \<lparr>taskFile = ustr ''task.md'', doneFile = ustr ''task_done.md'', dateFormat = [],
         autoOpenTaskFile = True\<rparr>
        \<lparr>format_today = (\<lambda>_. ustr ''2024-01-02''), format_tomorrow = (\<lambda>_. ustr ''2024-01-03'')\<rparr>
        [ustr ''- [x] t''] (ustr ''YYYY-MM-DD'')
        \<lparr>files = [ustr ''task_done.md'' \<mapsto> 10 # ustr ''  old notes'' @ 10 # ustr ''### 2024-01-01''],
         writes = []\<rparr>)
        (ustr ''task.md'')
      = None"
proof -
  let ?s = "\<lparr>taskFile = ustr ''task.md'', doneFile = ustr ''task_done.md'', dateFormat = [],
         autoOpenTaskFile = True\<rparr>"
  let ?cl = "\<lparr>format_today = (\<lambda>_. ustr ''2024-01-02''),
         format_tomorrow = (\<lambda>_. ustr ''2024-01-03'')\<rparr>"
  let ?w = "\<lparr>files = [ustr ''task_done.md'' \<mapsto> 10 # ustr ''  old notes'' @ 10 # ustr ''### 2024-01-01''],
         writes = []\<rparr>"
  note th = archive_lines_kept[of ?w ?s "[ustr ''- [x] t'']" ?cl "ustr ''YYYY-MM-DD''"]
  have ne: "ustr ''task.md'' \<noteq> doneFile ?s" by (simp add: ustr_def)
  from th[THEN conjunct1] have 1: "subseq [[], ustr ''  old notes'', ustr ''### 2024-01-01'']
     (merge_lines [[], ustr ''  old notes'', ustr ''### 2024-01-01''] [ustr ''- [x] t'']
        (ustr ''### 2024-01-02''))"
    by (simp add: hdr_marker_def ustr_def)
  from th[THEN conjunct2, THEN conjunct2, rule_format, OF ne]
  have 2: "files (appendDoneTasks ?s ?cl [ustr ''- [x] t''] (ustr ''YYYY-MM-DD'') ?w)
             (ustr ''task.md'') = None"
    by (simp add: ustr_def)
  from 1 2 show ?thesis by blast
qed

section \<open>The check of the recurring tasks' dates\<close>

lemma check_loop_snoc:
  "check_loop today (ls @ [l]) = check_line today l (check_loop today ls)"
  by (simp add: check_loop_def)

lemma check_inRepeat:
  "inRepeat (check_loop today ls) = fold section_step ls False"
  by (induction ls rule: rev_induct)
     (simp_all add: check_loop_snoc check_line_def section_step_def check_loop_def check_init_def)

lemma check_length:
  "length (updatedLines (check_loop today ls)) = length ls"
  by (induction ls rule: rev_induct)
     (simp_all add: check_loop_snoc check_line_def check_loop_def check_init_def)


lemma check_nth:
  assumes "i < length ls"
  shows "updatedLines (check_loop today ls) ! i =
           (if in_repeat_at ls i \<and> is_checked (ls ! i) \<and>
               includes_str (ls ! i) (ustr ''('' @ today @ ustr '')'')
            then newLine (taskText (ls ! i)) today else ls ! i)"
  using assms
proof (induction ls rule: rev_induct)
  case Nil
  then show ?case by simp
next
  case (snoc x xs)
  show ?case
  proof (cases "i < length xs")
    case True
    have "updatedLines (check_loop today (xs @ [x])) ! i = updatedLines (check_loop today xs) ! i"
      using True by (simp add: check_loop_snoc check_line_def nth_append check_length)
    then show ?thesis using True snoc.IH by (simp add: in_repeat_at_snoc nth_append)
  next
    case False
    then have i: "i = length xs" using snoc.prems by simp
    have n: "\<And>u v. length u = length xs \<Longrightarrow> (u @ [v]) ! length xs = v"
      by (metis nth_append_length)
    show ?thesis
      using checked_not_repeat[of x] checked_not_normal[of x] checked_not_marker[of x]
      unfolding i in_repeat_at_last
      by (simp add: check_loop_snoc check_line_def n check_length check_inRepeat
            section_step_def)
  qed
qed

lemma check_hasChanges:
  "hasChanges (check_loop today ls) \<longleftrightarrow>
     (\<exists>i < length ls. in_repeat_at ls i \<and> is_checked (ls ! i) \<and>
         includes_str (ls ! i) (ustr ''('' @ today @ ustr '')''))"
proof (induction ls rule: rev_induct)
  case Nil
  then show ?case by (simp add: check_loop_def check_init_def)
next
  case (snoc x xs)
  let ?c = "\<lambda>ls i. in_repeat_at ls i \<and> is_checked (ls ! i) \<and>
         includes_str (ls ! i) (ustr ''('' @ today @ ustr '')'')"
  have split: "(\<exists>i < length (xs @ [x]). ?c (xs @ [x]) i)
                 \<longleftrightarrow> (\<exists>i < length xs. ?c xs i) \<or> ?c (xs @ [x]) (length xs)"
    (is "?L \<longleftrightarrow> ?A \<or> ?B")
  proof
    assume ?L
    then obtain i where i: "i < length (xs @ [x])" "?c (xs @ [x]) i" by blast
    show "?A \<or> ?B"
    proof (cases "i < length xs")
      case True
      then have "?c xs i" using i(2) by (simp add: in_repeat_at_snoc nth_append)
      then show ?thesis using True by blast
    next
      case False
      then have "i = length xs" using i(1) by simp
      then show ?thesis using i(2) by blast
    qed
  next
    assume "?A \<or> ?B"
    then show ?L
    proof
      assume ?A
      then obtain i where "i < length xs" "?c xs i" by blast
      then have "i < length (xs @ [x])" "?c (xs @ [x]) i"
        by (simp_all add: in_repeat_at_snoc nth_append)
      then show ?L by blast
    next
      assume ?B
      then show ?L by auto
    qed
  qed
  have last: "hasChanges (check_loop today (xs @ [x]))
                \<longleftrightarrow> hasChanges (check_loop today xs) \<or> ?c (xs @ [x]) (length xs)"
    using checked_not_repeat[of x] checked_not_normal[of x] checked_not_marker[of x]
    unfolding in_repeat_at_last
    by (auto simp: check_loop_snoc check_line_def check_inRepeat section_step_def)
  show ?case unfolding split last snoc.IH ..
qed

text \<open>A second run over the lines of a first run changes nothing.\<close>

lemma check_stable:
  "updatedLines (check_loop today (updatedLines (check_loop today ls)))
     = updatedLines (check_loop today ls)
   \<and> \<not> hasChanges (check_loop today (updatedLines (check_loop today ls)))
   \<and> inRepeat (check_loop today (updatedLines (check_loop today ls)))
       = inRepeat (check_loop today ls)"
proof (induction ls rule: rev_induct)
  case Nil
  then show ?case by (simp add: check_loop_def check_init_def)
next
  case (snoc x xs)
  then show ?case
    by (simp add: check_loop_snoc check_line_def newLine_not_header newLine_not_checked)
qed


text \<open>
  C6, as the code has it. The loop keeps the number of lines. In the recurring section it
  rewrites a checked task line exactly when the line contains \<open>(today)\<close> somewhere,
  as its trailing annotation or elsewhere, and a change is reported exactly when some
  line was rewritten; every other line is kept as it is. A rewritten line is \<open>- [ ] \<close>,
  a text, a space and \<open>(today)\<close>. The line being \<open>indent @ m # ws1 @ [x] @ rest\<close> (white
  space, marker, white space, checkbox), the text is \<open>rest\<close> without the leftmost match of
  the annotation pattern, trimmed. It is the task text before the trailing annotation,
  whatever the date of that annotation, when the annotation is \<open>(\<close>, one or more
  characters other than \<open>)\<close>, and \<open>)\<close>, followed by white space only, and the text
  before it has no unclosed \<open>(\<close>.
\<close>

theorem check_rewrites_lines_with_today:
  "length (updatedLines (check_loop today lines)) = length lines
   \<and> hasChanges (check_loop today lines)
       = (\<exists>i < length lines. in_repeat_at lines i \<and> is_checked (lines ! i) \<and>
            includes_str (lines ! i) (ustr ''('' @ today @ ustr '')''))
   \<and> (\<forall>i < length lines.
         updatedLines (check_loop today lines) ! i =
           (if in_repeat_at lines i \<and> is_checked (lines ! i) \<and>
               includes_str (lines ! i) (ustr ''('' @ today @ ustr '')'')
            then ustr ''- [ ] '' @ taskText (lines ! i) @ ustr '' ('' @ today @ ustr '')''
            else lines ! i))
   \<and> (\<forall>i < length lines.
         in_repeat_at lines i \<and> is_checked (lines ! i) \<and>
         includes_str (lines ! i) (ustr ''('' @ today @ ustr '')'')
         \<longrightarrow> (\<exists>indent m ws1 x rest.
                lines ! i = indent @ m # ws1 @ 91 # x # 93 # rest \<and> list_all is_ws indent
                \<and> (m = 45 \<or> m = 42) \<and> ws1 \<noteq> [] \<and> list_all is_ws ws1 \<and> (x = 120 \<or> x = 88))
             \<and> (\<forall>indent m ws1 x rest.
                   lines ! i = indent @ m # ws1 @ 91 # x # 93 # rest \<and> list_all is_ws indent
                   \<and> (m = 45 \<or> m = 42) \<and> ws1 \<noteq> [] \<and> list_all is_ws ws1 \<and> (x = 120 \<or> x = 88)
                   \<longrightarrow> updatedLines (check_loop today lines) ! i
                         = ustr ''- [ ] '' @ trim (strip_annot (dropWhile is_ws rest))
                             @ ustr '' ('' @ today @ ustr '')''
                       \<and> (\<forall>tx body w.
                             dropWhile is_ws rest = tx @ 40 # body @ 41 # w \<and> parens_closed tx
                             \<and> body \<noteq> [] \<and> 41 \<notin> set body \<and> list_all is_ws w
                             \<longrightarrow> updatedLines (check_loop today lines) ! i
                                   = ustr ''- [ ] '' @ trim tx
                                       @ ustr '' ('' @ today @ ustr '')'')))"
proof -
  let ?c = "\<lambda>i. in_repeat_at lines i \<and> is_checked (lines ! i) \<and>
               includes_str (lines ! i) (ustr ''('' @ today @ ustr '')'')"
  let ?u = "\<lambda>i. updatedLines (check_loop today lines) ! i"
  have 1: "length (updatedLines (check_loop today lines)) = length lines"
    by (rule check_length)
  have 2: "hasChanges (check_loop today lines) = (\<exists>i < length lines. ?c i)"
    by (rule check_hasChanges)
  have 3: "\<forall>i < length lines. ?u i =
             (if ?c i then ustr ''- [ ] '' @ taskText (lines ! i) @ ustr '' ('' @ today @ ustr '')''
              else lines ! i)"
    using check_nth[of _ lines today] by (simp add: newLine_def)
  have 4: "(\<exists>indent m ws1 x rest.
              lines ! i = indent @ m # ws1 @ 91 # x # 93 # rest \<and> list_all is_ws indent
              \<and> (m = 45 \<or> m = 42) \<and> ws1 \<noteq> [] \<and> list_all is_ws ws1 \<and> (x = 120 \<or> x = 88))
           \<and> (\<forall>indent m ws1 x rest.
                 lines ! i = indent @ m # ws1 @ 91 # x # 93 # rest \<and> list_all is_ws indent
                 \<and> (m = 45 \<or> m = 42) \<and> ws1 \<noteq> [] \<and> list_all is_ws ws1 \<and> (x = 120 \<or> x = 88)
                 \<longrightarrow> ?u i = ustr ''- [ ] '' @ trim (strip_annot (dropWhile is_ws rest))
                             @ ustr '' ('' @ today @ ustr '')''
                     \<and> (\<forall>tx body w.
                           dropWhile is_ws rest = tx @ 40 # body @ 41 # w \<and> parens_closed tx
                           \<and> body \<noteq> [] \<and> 41 \<notin> set body \<and> list_all is_ws w
                           \<longrightarrow> ?u i = ustr ''- [ ] '' @ trim tx
                                       @ ustr '' ('' @ today @ ustr '')''))"
    if i: "i < length lines" and c: "?c i" for i
  proof -
    have u: "?u i = ustr ''- [ ] '' @ taskText (lines ! i) @ ustr '' ('' @ today @ ustr '')''"
      using 3 i c by simp
    have chk: "is_checked (lines ! i)" using c by blast
    have a: "\<exists>indent m ws1 x rest.
              lines ! i = indent @ m # ws1 @ 91 # x # 93 # rest \<and> list_all is_ws indent
              \<and> (m = 45 \<or> m = 42) \<and> ws1 \<noteq> [] \<and> list_all is_ws ws1 \<and> (x = 120 \<or> x = 88)"
      using checked_shape[OF chk] by blast
    have b: "?u i = ustr ''- [ ] '' @ trim (strip_annot (dropWhile is_ws rest))
                      @ ustr '' ('' @ today @ ustr '')''
             \<and> (\<forall>tx body w.
                   dropWhile is_ws rest = tx @ 40 # body @ 41 # w \<and> parens_closed tx
                   \<and> body \<noteq> [] \<and> 41 \<notin> set body \<and> list_all is_ws w
                   \<longrightarrow> ?u i = ustr ''- [ ] '' @ trim tx @ ustr '' ('' @ today @ ustr '')'')"
      if s: "lines ! i = indent @ m # ws1 @ 91 # x # 93 # rest" "list_all is_ws indent"
        "m = 45 \<or> m = 42" "ws1 \<noteq> []" "list_all is_ws ws1" "x = 120 \<or> x = 88"
      for indent m ws1 x rest
    proof -
      have t: "taskText (lines ! i) = trim (strip_annot (dropWhile is_ws rest))"
        unfolding s(1) using s(2-) by (rule taskText_shape)
      show ?thesis unfolding u t by (auto simp: strip_annot_trailing)
    qed
    from a b show ?thesis by blast
  qed
  from 1 2 3 4 show ?thesis by blast
qed

text \<open>
  The claim as stated fails on a checked recurring line that mentions \<open>(today)\<close> before
  a trailing annotation with another date: the line is rewritten.
\<close>

theorem check_rewrites_lines_with_today_counterexample:
  "updatedLines (check_loop (ustr ''2024-01-02'')
      [hdr_repeat, ustr ''- [x] Call (2024-01-02) Bob (2024-01-05)''])
   = [hdr_repeat, ustr ''- [ ] Call (2024-01-02) Bob (2024-01-02)'']"
  by (simp add: check_loop_def check_line_def check_init_def str_defs)

theorem check_rewrites_lines_with_today_witness:
  "updatedLines (check_loop (ustr ''2024-01-02'')
      [hdr_repeat, ustr ''* [X] Call (2024-01-02) Bob'', ustr ''- [x] Walk (2024-01-05)'',
       ustr ''  - [x]  Drink (2024-01-02) water (2024-01-05) '',
       hdr_normal, ustr ''- [x] Buy milk (2024-01-02)'']) ! 1
     = ustr ''- [ ] Call (2024-01-02) Bob (2024-01-02)''
   \<and> updatedLines (check_loop (ustr ''2024-01-02'')
      [hdr_repeat, ustr ''* [X] Call (2024-01-02) Bob'', ustr ''- [x] Walk (2024-01-05)'',
       ustr ''  - [x]  Drink (2024-01-02) water (2024-01-05) '',
       hdr_normal, ustr ''- [x] Buy milk (2024-01-02)'']) ! 2
     = ustr ''- [x] Walk (2024-01-05)''
   \<and> updatedLines (check_loop (ustr ''2024-01-02'')
      [hdr_repeat, ustr ''* [X] Call (2024-01-02) Bob'', ustr ''- [x] Walk (2024-01-05)'',
       ustr ''  - [x]  Drink (2024-01-02) water (2024-01-05) '',
       hdr_normal, ustr ''- [x] Buy milk (2024-01-02)'']) ! 3
     = ustr ''- [ ] Drink (2024-01-02) water (2024-01-02)''
   \<and> updatedLines (check_loop (ustr ''2024-01-02'')
      [hdr_repeat, ustr ''* [X] Call (2024-01-02) Bob'', ustr ''- [x] Walk (2024-01-05)'',
       ustr ''  - [x]  Drink (2024-01-02) water (2024-01-05) '',
       hdr_normal, ustr ''- [x] Buy milk (2024-01-02)'']) ! 5
     = ustr ''- [x] Buy milk (2024-01-02)''"
proof -
  let ?ls = "[hdr_repeat, ustr ''* [X] Call (2024-01-02) Bob'', ustr ''- [x] Walk (2024-01-05)'',
       ustr ''  - [x]  Drink (2024-01-02) water (2024-01-05) '',
       hdr_normal, ustr ''- [x] Buy milk (2024-01-02)'']"
  let ?t = "ustr ''2024-01-02''"
  note th = check_rewrites_lines_with_today[of ?t ?ls, THEN conjunct2, THEN conjunct2,
      THEN conjunct1, rule_format]
  note tx = check_rewrites_lines_with_today[of ?t ?ls, THEN conjunct2, THEN conjunct2,
      THEN conjunct2, rule_format, THEN conjunct2, rule_format, THEN conjunct2, rule_format]
  have l1: "(1::nat) < length ?ls" and l2: "(2::nat) < length ?ls"
    and l3: "(3::nat) < length ?ls" and l5: "(5::nat) < length ?ls"
    by simp_all
  have s1: "in_repeat_at ?ls 1" and s2: "in_repeat_at ?ls 2" and s3: "in_repeat_at ?ls 3"
    and s5: "\<not> in_repeat_at ?ls 5"
    by (simp_all add: in_repeat_at_def section_step_def str_defs)
  have c1: "is_checked (?ls ! 1)" by (simp add: str_defs)
  have i1: "includes_str (?ls ! 1) (ustr ''('' @ ?t @ ustr '')'')" by (simp add: str_defs)
  have i2: "\<not> includes_str (?ls ! 2) (ustr ''('' @ ?t @ ustr '')'')" by (simp add: str_defs)
  have t1: "taskText (?ls ! 1) = ustr ''Call (2024-01-02) Bob''" by (simp add: str_defs)
  have c3: "in_repeat_at ?ls 3 \<and> is_checked (?ls ! 3)
            \<and> includes_str (?ls ! 3) (ustr ''('' @ ?t @ ustr '')'')"
    using s3 by (simp add: str_defs)
  have sh3: "?ls ! 3 = ustr ''  '' @ 45 # ustr '' '' @ 91 # 120 # 93
                 # ustr ''  Drink (2024-01-02) water (2024-01-05) ''
             \<and> list_all is_ws (ustr ''  '') \<and> ((45::nat) = 45 \<or> (45::nat) = 42)
             \<and> ustr '' '' \<noteq> [] \<and> list_all is_ws (ustr '' '')
             \<and> ((120::nat) = 120 \<or> (120::nat) = 88)"
    by (simp add: ustr_def is_ws_def)
  have an3: "dropWhile is_ws (ustr ''  Drink (2024-01-02) water (2024-01-05) '')
               = ustr ''Drink (2024-01-02) water '' @ 40 # ustr ''2024-01-05'' @ 41 # ustr '' ''
             \<and> parens_closed (ustr ''Drink (2024-01-02) water '') \<and> ustr ''2024-01-05'' \<noteq> []
             \<and> 41 \<notin> set (ustr ''2024-01-05'') \<and> list_all is_ws (ustr '' '')"
    by (simp add: ustr_def is_ws_def parens_closed_def)
  have "updatedLines (check_loop ?t ?ls) ! 1 = ustr ''- [ ] Call (2024-01-02) Bob (2024-01-02)''"
    using th[OF l1] s1 c1 i1 t1 by (simp add: ustr_def)
  moreover have "updatedLines (check_loop ?t ?ls) ! 2 = ustr ''- [x] Walk (2024-01-05)''"
    using th[OF l2] i2 by simp
  moreover have "updatedLines (check_loop ?t ?ls) ! 3
                   = ustr ''- [ ] '' @ trim (ustr ''Drink (2024-01-02) water '')
                       @ ustr '' ('' @ ?t @ ustr '')''"
    by (rule tx[OF l3 c3 sh3 an3])
  then have "updatedLines (check_loop ?t ?ls) ! 3
                   = ustr ''- [ ] Drink (2024-01-02) water (2024-01-02)''"
    by (simp add: ustr_def trim_def is_ws_def)
  moreover have "updatedLines (check_loop ?t ?ls) ! 5 = ustr ''- [x] Buy milk (2024-01-02)''"
    using th[OF l5] s5 by simp
  ultimately show ?thesis by blast
qed



section \<open>A second pass over the vault\<close>

text \<open>
  The loops work on lines, the plugin on files: a pass writes the joined lines and the
  next pass splits what it reads. A line of a file holds no newline, and neither does a
  rewritten line when the formatted date holds none, so the next pass reads the lines
  the first one produced.
\<close>

lemma set_trim: "set (trim s) \<subseteq> set s"
proof -
  have "set (trim s) \<subseteq> set (dropWhile is_ws s)"
    unfolding trim_def by (auto dest: set_dropWhileD)
  then show ?thesis by (auto dest: set_dropWhileD)
qed

lemma set_strip_annot: "set (strip_annot s) \<subseteq> set s"
  by (induction s) auto

lemma set_strip_checkbox: "set (strip_checkbox s) \<subseteq> set s"
proof (cases "is_checked s")
  case True
  from checked_shape[OF True] obtain indent m ws1 x rest
    where "s = indent @ m # ws1 @ 91 # x # 93 # rest" "strip_checkbox s = dropWhile is_ws rest"
    by blast
  then show ?thesis by (auto dest: set_dropWhileD)
next
  case False
  then show ?thesis by (simp add: strip_checkbox_def is_checked_def)
qed

lemma set_taskText: "set (taskText s) \<subseteq> set s"
  unfolding taskText_def using set_trim set_strip_annot set_strip_checkbox by blast

lemma newLine_no_nl: "10 \<notin> set l \<Longrightarrow> 10 \<notin> set d \<Longrightarrow> 10 \<notin> set (newLine (taskText l) d)"
  using set_taskText[of l] by (auto simp: newLine_def ustr_def)

lemma check_no_nl:
  assumes "10 \<notin> set today" "\<forall>l \<in> set ls. 10 \<notin> set l"
  shows "\<forall>l \<in> set (updatedLines (check_loop today ls)). 10 \<notin> set l"
  using assms(2)
proof (induction ls rule: rev_induct)
  case Nil
  then show ?case by (simp add: check_loop_def check_init_def)
next
  case (snoc x xs)
  then show ?case using newLine_no_nl[OF _ assms(1), of x]
    by (auto simp: check_loop_snoc check_line_def)
qed

lemma extract_no_nl:
  assumes "10 \<notin> set tm" "\<forall>l \<in> set ls. 10 \<notin> set l"
  shows "\<forall>l \<in> set (remaining (extract_loop tm ls)). 10 \<notin> set l"
  using assms(2)
proof (induction ls rule: rev_induct)
  case Nil
  then show ?case by (simp add: extract_loop_def extract_init_def)
next
  case (snoc x xs)
  then show ?case using newLine_no_nl[OF _ assms(1), of x]
    by (auto simp: extract_loop_snoc process_line_def)
qed

text \<open>Run again on the vault it left, the check of the dates changes nothing and writes nothing.\<close>

lemma checkRepeatTaskDates_twice:
  assumes "10 \<notin> set (format_today cl (effective_dateFormat s))"
  shows "checkRepeatTaskDates s cl (checkRepeatTaskDates s cl w) = checkRepeatTaskDates s cl w"
proof (cases "files w (taskFile s)")
  case None
  then show ?thesis by (simp add: checkRepeatTaskDates_def)
next
  case (Some c)
  let ?t = "format_today cl (effective_dateFormat s)"
  let ?st = "check_loop ?t (split_nl c)"
  show ?thesis
  proof (cases "hasChanges ?st")
    case False
    then show ?thesis using Some by (simp add: checkRepeatTaskDates_def Let_def)
  next
    case True
    have ne: "updatedLines ?st \<noteq> []"
      using check_length[of ?t "split_nl c"] split_nl_nonempty[of c] by auto
    have "\<forall>l \<in> set (split_nl c). 10 \<notin> set l" using split_nl_no_nl by blast
    from check_no_nl[OF assms this] have "\<forall>l \<in> set (updatedLines ?st). 10 \<notin> set l" .
    with ne have sj: "split_nl (join_nl (updatedLines ?st)) = updatedLines ?st"
      by (rule split_join)
    have 1: "checkRepeatTaskDates s cl w
               = vault_modify (taskFile s) (join_nl (updatedLines ?st)) w"
      using Some True by (simp add: checkRepeatTaskDates_def Let_def)
    have 2: "files (vault_modify (taskFile s) (join_nl (updatedLines ?st)) w) (taskFile s)
               = Some (join_nl (updatedLines ?st))"
      by (simp add: vault_modify_def)
    show ?thesis unfolding 1
      using check_stable[of ?t "split_nl c"]
      by (simp add: checkRepeatTaskDates_def[of s cl "vault_modify _ _ _"] 2 Let_def sj)
  qed
qed

text \<open>
  The write of the task file triggers the pass again; that second pass finds no done
  task, makes no call on the vault and leaves its state as it is.
\<close>

lemma processTaskFile_twice:
  assumes nl: "10 \<notin> set (format_tomorrow cl (effective_dateFormat s))"
    and diff: "file \<noteq> doneFile s"
    and first: "processTaskFile s cl file w = Inr w'"
  shows "processTaskFile s cl file w' = Inr w'"
proof (cases "files w file")
  case None
  then show ?thesis using first by (simp add: processTaskFile_def)
next
  case (Some c)
  let ?tm = "format_tomorrow cl (effective_dateFormat s)"
  let ?st = "extract_loop ?tm (split_nl c)"
  show ?thesis
  proof (cases "doneTasks ?st = []")
    case True
    then have "w' = w" using first Some by (simp add: processTaskFile_def Let_def)
    then show ?thesis using first by simp
  next
    case False
    then have w': "w' = appendDoneTasks s cl (doneTasks ?st) (effective_dateFormat s)
                          (vault_modify file (join_nl (remaining ?st)) w)"
      using first Some by (simp add: processTaskFile_def Let_def)
    have f: "files w' file = Some (join_nl (remaining ?st))"
      unfolding w' using diff
      by (simp add: appendDoneTasks_def vault_modify_def vault_create_def Let_def
            split: option.splits)
    have u: "\<forall>l \<in> set (split_nl (join_nl (remaining ?st))). \<not> is_checked l"
    proof (cases "remaining ?st = []")
      case True
      then show ?thesis by (simp add: str_defs)
    next
      case ne: False
      have "\<forall>l \<in> set (split_nl c). 10 \<notin> set l" using split_nl_no_nl by blast
      from extract_no_nl[OF nl this] have "\<forall>l \<in> set (remaining ?st). 10 \<notin> set l" .
      with ne have "split_nl (join_nl (remaining ?st)) = remaining ?st" by (rule split_join)
      then show ?thesis using remaining_unchecked[of ?tm "split_nl c"] by simp
    qed
    from unchecked_extract[OF u, of ?tm] f show ?thesis
      by (simp add: processTaskFile_def Let_def)
  qed
qed

end
